theory Spec2Isabelle
  imports Main "HOL-Library.AList" "HOL-Library.Word"
begin

chapter \<open>The DICOM parser of dwv (src/dicom/dicomParser.js)\<close>

section \<open>JavaScript strings\<close>

text \<open>
  A JavaScript string is a sequence of UTF-16 code units. The strings that the parser builds
  itself come from \<open>readString\<close> (one byte, one code unit) and from \<open>toString(16)\<close>, so they
  are modelled as HOL strings (8-bit characters). Functions that accept any string
  (\<open>cleanString\<close>, the transfer syntax tests) work on lists of code units; \<open>js\<close> embeds
  the first kind into the second.
\<close>

type_synonym ustring = "nat list"

definition js :: "string \<Rightarrow> ustring" where
  "js s = map of_char s"

text \<open>\<open>String.prototype.substr(start, length)\<close> for a start that is not negative.\<close>

definition substr :: "'a list \<Rightarrow> nat \<Rightarrow> nat \<Rightarrow> 'a list" where
  "substr s start len = take len (drop start s)"

text \<open>
  The code units that \<open>String.prototype.trim\<close> removes: WhiteSpace and LineTerminator of
  ECMAScript (TAB, LF, VT, FF, CR, SP, NBSP, U+1680, U+2000 to U+200A, U+2028, U+2029,
  U+202F, U+205F, U+3000, U+FEFF). U+200B is not one of them.
\<close>

definition isWhiteSpace :: "nat \<Rightarrow> bool" where
  "isWhiteSpace c =
     (c \<in> set [9, 10, 11, 12, 13, 32, 160, 5760, 8232, 8233, 8239, 8287, 12288, 65279]
      \<or> (8192 \<le> c \<and> c \<le> 8202))"

definition trim :: "ustring \<Rightarrow> ustring" where
  "trim s = rev (dropWhile isWhiteSpace (rev (dropWhile isWhiteSpace s)))"

text \<open>
  \<open>String.fromCharCode("u200B")\<close>: the argument is the string \<open>"u200B"\<close>, not a number.
  \<open>ToNumber("u200B")\<close> is NaN and \<open>ToUint16(NaN)\<close> is 0, so the call returns the string of
  the single code unit 0.
\<close>

definition fromCharCode_u200B :: ustring where
  "fromCharCode_u200B = [0]"

text \<open>
  \<open>cleanString\<close> (lines 11 to 23). \<open>if ( string )\<close> holds for a string that is not empty;
  \<open>res[res.length-1]\<close> is undefined for the empty string and then differs from every string.
\<close>

definition cleanString :: "ustring \<Rightarrow> ustring" where
  "cleanString string =
     (if string \<noteq> [] then
        (let res = trim string in
         if res \<noteq> [] \<and> [last res] = fromCharCode_u200B
         then take (length res - 1) res
         else res)
      else string)"

section \<open>Group-element keys\<close>

definition getGroupElementKey :: "string \<Rightarrow> string \<Rightarrow> string" where
  "getGroupElementKey group' element' = ''x'' @ substr group' 2 6 @ substr element' 2 6"

text \<open>\<open>splitGroupElementKey\<close> returns the object \<open>{group, element}\<close>, here a pair.\<close>

definition splitGroupElementKey :: "string \<Rightarrow> string \<times> string" where
  "splitGroupElementKey key = (substr key 1 4, substr key 5 8)"

section \<open>Transfer syntaxes\<close>

text \<open>
  The regular expressions of the source are sequences of literal characters and \<open>.\<close>, which
  matches every code unit but a line terminator. \<open>rx_match p s\<close> is
  \<open>s.match(p) !== null\<close>: the pattern matches somewhere in the string.
\<close>

datatype rx = Lit nat | AnyChar

definition isLineTerminator :: "nat \<Rightarrow> bool" where
  "isLineTerminator c = (c = 10 \<or> c = 13 \<or> c = 8232 \<or> c = 8233)"

fun rx_here :: "rx list \<Rightarrow> ustring \<Rightarrow> bool" where
  "rx_here [] s = True"
| "rx_here (p # ps) [] = False"
| "rx_here (Lit c # ps) (x # xs) = (x = c \<and> rx_here ps xs)"
| "rx_here (AnyChar # ps) (x # xs) = (\<not> isLineTerminator x \<and> rx_here ps xs)"

fun rx_match :: "rx list \<Rightarrow> ustring \<Rightarrow> bool" where
  "rx_match p [] = rx_here p []"
| "rx_match p (x # xs) = (rx_here p (x # xs) \<or> rx_match p xs)"

definition rx_of :: "string \<Rightarrow> rx list" where
  "rx_of s = map (\<lambda>c. if c = CHR ''.'' then AnyChar else Lit (of_char c)) s"

text \<open>
  The tests that compare with \<open>===\<close> are also called without an argument (line 352), so
  their parameter is a string or undefined (\<open>None\<close>).
\<close>

definition isJpegBaselineTransferSyntax :: "ustring option \<Rightarrow> bool" where
  "isJpegBaselineTransferSyntax syntax =
     (syntax = Some (js ''1.2.840.10008.1.2.4.50'') \<or>
      syntax = Some (js ''1.2.840.10008.1.2.4.51''))"

definition isJpegLosslessTransferSyntax :: "ustring option \<Rightarrow> bool" where
  "isJpegLosslessTransferSyntax syntax =
     (syntax = Some (js ''1.2.840.10008.1.2.4.57'') \<or>
      syntax = Some (js ''1.2.840.10008.1.2.4.70''))"

definition isJpegNonSupportedTransferSyntax :: "ustring \<Rightarrow> bool" where
  "isJpegNonSupportedTransferSyntax syntax =
     ((rx_match (rx_of ''1.2.840.10008.1.2.4.5'') syntax \<and>
       \<not> isJpegBaselineTransferSyntax None \<and>
       \<not> isJpegLosslessTransferSyntax None) \<or>
      rx_match (rx_of ''1.2.840.10008.1.2.4.6'') syntax)"

definition isJpeglsTransferSyntax :: "ustring \<Rightarrow> bool" where
  "isJpeglsTransferSyntax syntax = rx_match (rx_of ''1.2.840.10008.1.2.4.8'') syntax"

definition isJpeg2000TransferSyntax :: "ustring \<Rightarrow> bool" where
  "isJpeg2000TransferSyntax syntax = rx_match (rx_of ''1.2.840.10008.1.2.4.9'') syntax"

section \<open>Typed arrays and the array buffer\<close>

type_synonym byte = "8 word"
type_synonym arrayBuffer = "byte list"

datatype arrayType = Int8 | Uint8 | Int16 | Uint16 | Int32 | Uint32 | Float32 | Float64

fun BYTES_PER_ELEMENT :: "arrayType \<Rightarrow> nat" where
  "BYTES_PER_ELEMENT Int8 = 1"
| "BYTES_PER_ELEMENT Uint8 = 1"
| "BYTES_PER_ELEMENT Int16 = 2"
| "BYTES_PER_ELEMENT Uint16 = 2"
| "BYTES_PER_ELEMENT Int32 = 4"
| "BYTES_PER_ELEMENT Uint32 = 4"
| "BYTES_PER_ELEMENT Float32 = 4"
| "BYTES_PER_ELEMENT Float64 = 8"

lemma BYTES_PER_ELEMENT_pos: "0 < BYTES_PER_ELEMENT T"
  by (cases T) simp_all

text \<open>
  \<open>flipArrayEndianness\<close> (lines 73 to 85). \<open>u8\<close> is a byte view of the array's memory.
  The inner loop swaps \<open>u8[k]\<close> and \<open>u8[j]\<close> while \<open>j > k\<close>. A read past the end of a typed
  array is undefined, which is stored as 0; a write past the end is ignored.
\<close>

fun flip_inner :: "nat \<Rightarrow> nat \<Rightarrow> byte list \<Rightarrow> byte list" where
  "flip_inner j k u8 =
     (if j > k then
        (let tmp = u8 ! k;
             u8 = u8[k := (if j < length u8 then u8 ! j else 0)];
             u8 = u8[j := tmp]
         in flip_inner (j - 1) (k + 1) u8)
      else u8)"

declare flip_inner.simps [simp del]

function flip_outer :: "arrayType \<Rightarrow> nat \<Rightarrow> nat \<Rightarrow> byte list \<Rightarrow> byte list" where
  "flip_outer T blen i u8 =
     (let bpel = BYTES_PER_ELEMENT T in
      if i < blen then flip_outer T blen (i + bpel) (flip_inner (i + bpel - 1) i u8)
      else u8)"
  by pat_completeness simp_all
termination
  apply (relation "measure (\<lambda>(T, blen, i, u8). blen - i)")
   apply simp
  using BYTES_PER_ELEMENT_pos apply (simp add: diff_less_mono2)
  done

declare flip_outer.simps [simp del]

text \<open>
  The array is a view of type \<open>T\<close> on \<open>buffer\<close>, starting at \<open>byteOffset\<close> and \<open>byteLength\<close>
  bytes long; the function changes the buffer in place and the result is the new buffer.
\<close>

definition flipArrayEndianness :: "arrayType \<Rightarrow> nat \<Rightarrow> nat \<Rightarrow> arrayBuffer \<Rightarrow> arrayBuffer" where
  "flipArrayEndianness T byteOffset byteLength buffer =
     (let blen = byteLength;
          u8 = take blen (drop byteOffset buffer)
      in take byteOffset buffer @ flip_outer T blen 0 u8 @ drop (byteOffset + blen) buffer)"

definition flipIndex :: "nat \<Rightarrow> nat \<Rightarrow> nat" where
  "flipIndex b n = n div b * b + (b - 1 - n mod b)"

text \<open>
  A typed array is either a view on the file's array buffer (\<open>new T(buffer, byteOffset,
  length)\<close>), which shares the buffer's bytes, or an array of its own (\<open>new T(length)\<close>),
  which holds its elements. An element is kept as its bit pattern, a number below
  \<open>2 ^ (8 * BYTES_PER_ELEMENT T)\<close>: the element's value is that pattern read as an unsigned
  integer, as a two's complement integer or as an IEEE 754 number, after the array type.
\<close>

datatype typedArray =
    BufferView arrayType nat nat
  | NewArray arrayType "nat list"

fun ta_type :: "typedArray \<Rightarrow> arrayType" where
  "ta_type (BufferView T byteOffset len) = T"
| "ta_type (NewArray T xs) = T"

fun ta_length :: "typedArray \<Rightarrow> nat" where
  "ta_length (BufferView T byteOffset len) = len"
| "ta_length (NewArray T xs) = length xs"

fun le_nat :: "byte list \<Rightarrow> nat" where
  "le_nat [] = 0"
| "le_nat (b # bs) = unat b + 256 * le_nat bs"

definition bytes_nat :: "bool \<Rightarrow> byte list \<Rightarrow> nat" where
  "bytes_nat littleEndian bs = le_nat (if littleEndian then bs else rev bs)"

text \<open>
  The elements of a typed array, as bit patterns. A view reads the buffer in the byte order of
  the platform (\<open>nativeLE\<close>).
\<close>

fun ta_elements :: "bool \<Rightarrow> arrayBuffer \<Rightarrow> typedArray \<Rightarrow> nat list" where
  "ta_elements nativeLE buffer (BufferView T byteOffset len) =
     map (\<lambda>i. bytes_nat nativeLE
                (take (BYTES_PER_ELEMENT T) (drop (byteOffset + i * BYTES_PER_ELEMENT T) buffer)))
         [0..<len]"
| "ta_elements nativeLE buffer (NewArray T xs) = xs"

text \<open>The integer that a bit pattern stands for in an integer array.\<close>

fun intValue :: "arrayType \<Rightarrow> nat \<Rightarrow> int" where
  "intValue Int8 raw = (if raw < 128 then int raw else int raw - 256)"
| "intValue Int16 raw = (if raw < 32768 then int raw else int raw - 65536)"
| "intValue Int32 raw = (if raw < 2147483648 then int raw else int raw - 4294967296)"
| "intValue T raw = int raw"


section \<open>What the embedding takes from outside\<close>

text \<open>
  The platform's byte order (\<open>dwv.dicom.isNativeLittleEndian()\<close>), the DICOM dictionary
  (\<open>dwv.dicom.dictionary\<close> is not defined in this file: \<open>dictionary g e\<close> is
  \<open>dictionary[g][e][0]\<close>, the VR, when both lookups are defined), and the conversions of
  JavaScript that involve floating point numbers or the grammar of numeric strings:
  \<open>parseInt(x, 10)\<close> of an element of a float array (\<open>None\<close> is NaN), \<open>ToUint16\<close> of such an
  element, and \<open>ToUint16(ToNumber(s))\<close> of a string. The float arguments are bit patterns.
\<close>

record jsenv =
  isNativeLittleEndian :: bool
  dictionary :: "string \<Rightarrow> string \<Rightarrow> string option"
  parseInt_float32 :: "nat \<Rightarrow> int option"
  parseInt_float64 :: "nat \<Rightarrow> int option"
  toUint16_float32 :: "nat \<Rightarrow> nat"
  toUint16_float64 :: "nat \<Rightarrow> nat"
  toUint16_string :: "string \<Rightarrow> nat"

section \<open>Errors and results\<close>

text \<open>
  \<open>RangeError\<close> and \<open>TypeError\<close> are thrown by the JavaScript runtime (a read outside the
  buffer, a property of undefined); \<open>Error msg\<close> is \<open>throw new Error(msg)\<close> of the source.
  \<open>OutOfFuel\<close> is the model's own: the functions with loops take a bound on the depth of
  calls and loop iterations, and return \<open>OutOfFuel\<close> when it is used up.
\<close>

datatype error = RangeError | TypeError | Error ustring

datatype 'a outcome = OutOfFuel | Throw error | Return 'a

fun andThen :: "'a outcome \<Rightarrow> ('a \<Rightarrow> 'b outcome) \<Rightarrow> 'b outcome" where
  "andThen OutOfFuel f = OutOfFuel"
| "andThen (Throw e) f = Throw e"
| "andThen (Return x) f = f x"

section \<open>DataReader\<close>

text \<open>
  A reader is its two flags; the array buffer that its \<open>DataView\<close> and its typed arrays look
  at is passed to each method, and a method that flips bytes in place returns the buffer too.
\<close>

record dataReader =
  isLittleEndian :: bool
  needFlip :: bool

definition DataReader :: "jsenv \<Rightarrow> bool \<Rightarrow> dataReader" where
  "DataReader env littleEndian =
     \<lparr>isLittleEndian = littleEndian,
      needFlip = (littleEndian \<noteq> isNativeLittleEndian env)\<rparr>"

text \<open>
  \<open>DataView.prototype.getUint16\<close>, \<open>getInt16\<close>, \<open>getUint32\<close>, \<open>getInt32\<close>, \<open>getFloat32\<close> and
  \<open>getFloat64\<close> read \<open>n\<close> bytes (2, 4 or 8) at \<open>byteOffset\<close> in the given byte order, or throw a
  RangeError when the bytes are not all inside the buffer. The result is the bit pattern.
\<close>

definition dataViewGet :: "arrayBuffer \<Rightarrow> nat \<Rightarrow> nat \<Rightarrow> bool \<Rightarrow> nat outcome" where
  "dataViewGet buffer n byteOffset littleEndian =
     (if byteOffset + n \<le> length buffer
      then Return (bytes_nat littleEndian (take n (drop byteOffset buffer)))
      else Throw RangeError)"

definition readUint16 :: "dataReader \<Rightarrow> arrayBuffer \<Rightarrow> nat \<Rightarrow> nat outcome" where
  "readUint16 rd buffer byteOffset = dataViewGet buffer 2 byteOffset (isLittleEndian rd)"

definition readUint32 :: "dataReader \<Rightarrow> arrayBuffer \<Rightarrow> nat \<Rightarrow> nat outcome" where
  "readUint32 rd buffer byteOffset = dataViewGet buffer 4 byteOffset (isLittleEndian rd)"

text \<open>
  \<open>new Uint8Array(buffer, byteOffset, size)\<close> throws a RangeError unless the view lies inside
  the buffer.
\<close>

definition readUint8Array :: "dataReader \<Rightarrow> arrayBuffer \<Rightarrow> nat \<Rightarrow> nat \<Rightarrow> typedArray outcome" where
  "readUint8Array rd buffer byteOffset size' =
     (if byteOffset + size' \<le> length buffer
      then Return (BufferView Uint8 byteOffset size')
      else Throw RangeError)"

text \<open>
  The loop of the unaligned branch: \<open>for (i = 0; i < arraySize; ++i) data[i] = view.get...\<close>,
  where \<open>arraySize = size / BYTES_PER_ELEMENT\<close> need not be an integer, so that \<open>i < arraySize\<close>
  is \<open>i * BYTES_PER_ELEMENT < size\<close>. A store past the end of \<open>data\<close> is ignored.
\<close>

function readArray_loop ::
  "arrayType \<Rightarrow> dataReader \<Rightarrow> arrayBuffer \<Rightarrow> nat \<Rightarrow> nat \<Rightarrow> nat \<Rightarrow> nat list \<Rightarrow> nat list outcome"
where
  "readArray_loop T rd buffer byteOffset size' i data' =
     (if i * BYTES_PER_ELEMENT T < size' then
        andThen (dataViewGet buffer (BYTES_PER_ELEMENT T) (byteOffset + BYTES_PER_ELEMENT T * i)
                   (isLittleEndian rd))
          (\<lambda>x. readArray_loop T rd buffer byteOffset size' (i + 1) (data'[i := x]))
      else Return data')"
  by pat_completeness simp_all
termination
  apply (relation "measure (\<lambda>(T, rd, buffer, byteOffset, size', i, data'). size' - i * BYTES_PER_ELEMENT T)")
   apply simp
  using BYTES_PER_ELEMENT_pos apply (simp add: diff_less_mono2)
  done

declare readArray_loop.simps [simp del]

text \<open>
  \<open>readUint16Array\<close>, \<open>readInt16Array\<close>, \<open>readUint32Array\<close>, \<open>readInt32Array\<close>,
  \<open>readFloat32Array\<close> and \<open>readFloat64Array\<close> (lines 135 to 284) are one text with the array
  type changed. The length of a typed array is the integer part of \<open>arraySize\<close>. In the aligned
  branch the array is a view on the buffer, and its bytes are flipped in the buffer when the
  reader's byte order is not the platform's.
\<close>

definition readTypedArray ::
  "arrayType \<Rightarrow> dataReader \<Rightarrow> arrayBuffer \<Rightarrow> nat \<Rightarrow> nat \<Rightarrow> (typedArray \<times> arrayBuffer) outcome"
where
  "readTypedArray T rd buffer byteOffset size' =
     (let arrayLength = size' div BYTES_PER_ELEMENT T in
      if byteOffset mod BYTES_PER_ELEMENT T = 0 then
        (if byteOffset + arrayLength * BYTES_PER_ELEMENT T \<le> length buffer then
           Return (BufferView T byteOffset arrayLength,
                   if needFlip rd
                   then flipArrayEndianness T byteOffset (arrayLength * BYTES_PER_ELEMENT T) buffer
                   else buffer)
         else Throw RangeError)
      else
        andThen (readArray_loop T rd buffer byteOffset size' 0 (replicate arrayLength 0))
          (\<lambda>data'. Return (NewArray T data', buffer)))"

definition readUint16Array where "readUint16Array = readTypedArray Uint16"
definition readInt16Array where "readInt16Array = readTypedArray Int16"
definition readUint32Array where "readUint32Array = readTypedArray Uint32"
definition readInt32Array where "readInt32Array = readTypedArray Int32"
definition readFloat32Array where "readFloat32Array = readTypedArray Float32"
definition readFloat64Array where "readFloat64Array = readTypedArray Float64"

text \<open>\<open>Number.prototype.toString(16)\<close> of a natural number.\<close>

definition hexDigit :: "nat \<Rightarrow> char" where
  "hexDigit d = ''0123456789abcdef'' ! d"

function toString16 :: "nat \<Rightarrow> string" where
  "toString16 n =
     (if n < 16 then [hexDigit n] else toString16 (n div 16) @ [hexDigit (n mod 16)])"
  by pat_completeness simp_all
termination
  apply (relation "measure id")
   apply simp
  apply simp
  done

declare toString16.simps [simp del]

text \<open>\<open>toUpperCase\<close>, on the digits and letters that \<open>toString(16)\<close> produces.\<close>

definition toUpperCase :: "string \<Rightarrow> string" where
  "toUpperCase s =
     map (\<lambda>c. if (97::nat) \<le> of_char c \<and> of_char c \<le> (122::nat)
              then char_of (of_char c - (32::nat)) else c) s"

definition readHex :: "dataReader \<Rightarrow> arrayBuffer \<Rightarrow> nat \<Rightarrow> string outcome" where
  "readHex rd buffer byteOffset =
     andThen (readUint16 rd buffer byteOffset)
       (\<lambda>n. let str = toString16 n in
             Return (substr ''0x0000'' 0 (6 - length str) @ toUpperCase str))"

definition readString :: "dataReader \<Rightarrow> arrayBuffer \<Rightarrow> nat \<Rightarrow> nat \<Rightarrow> string outcome" where
  "readString rd buffer byteOffset nChars =
     andThen (readUint8Array rd buffer byteOffset nChars)
       (\<lambda>data'. Return (map (\<lambda>b. char_of (unat b)) (take nChars (drop byteOffset buffer))))"

section \<open>Data elements\<close>

text \<open>
  \<open>is32bitVLVR\<close>, \<open>isTagWithVR\<close> and \<open>getDataElementPrefixByteSize\<close> (lines 486 to 525).
\<close>

definition is32bitVLVR :: "string \<Rightarrow> bool" where
  "is32bitVLVR vr =
     (vr = ''OB'' \<or> vr = ''OW'' \<or> vr = ''OF'' \<or> vr = ''ox'' \<or> vr = ''SQ'' \<or> vr = ''UN'')"

definition isTagWithVR :: "string \<Rightarrow> string \<Rightarrow> bool" where
  "isTagWithVR group' element' =
     (\<not> (group' = ''0xFFFE'' \<and>
         (element' = ''0xE000'' \<or> element' = ''0xE00D'' \<or> element' = ''0xE0DD'')))"

definition getDataElementPrefixByteSize :: "string \<Rightarrow> nat" where
  "getDataElementPrefixByteSize vr = (if is32bitVLVR vr then 12 else 8)"

text \<open>
  The object that \<open>readTag\<close> returns, and the one that \<open>readDataElement\<close> returns. The field
  \<open>vl\<close> is a number or the string \<open>"u/l"\<close>; the field \<open>value\<close> (\<open>val\<close> here) is a typed array
  or an array, whose components are strings (the string VRs, AT), item objects (SQ: an object
  is the list of its keys and values, in the order in which the keys were first set) or data
  elements (the pixel items).
\<close>

datatype tag = Tag (tag_group: string) (tag_element: string) (tag_name: string)
  (tag_endOffset: nat)

datatype vl = VL nat | UndefinedLength

datatype dataElement =
  DataElement (tag: tag) (vr: string) (vl: vl) (val: dvalue) (endOffset: nat)
and dvalue = TypedArray typedArray | Array "component list"
and component = Str string | Item "(string \<times> dataElement) list" | Elem dataElement

type_synonym elements = "(string \<times> dataElement) list"

datatype itemResult =
  ItemResult (item_data: elements) (item_endOffset: nat) (isSeqDelim: bool)

datatype pixelItemResult =
  PixelItemResult (pix_data: "dataElement list") (pix_endOffset: nat)

definition readTag :: "dataReader \<Rightarrow> arrayBuffer \<Rightarrow> nat \<Rightarrow> tag outcome" where
  "readTag reader buffer offset =
     andThen (readHex reader buffer offset) (\<lambda>group'.
     andThen (readHex reader buffer (offset + 2)) (\<lambda>element'.
       Return (Tag group' element' (getGroupElementKey group' element') (offset + 2 + 2))))"

text \<open>
  The first part of \<open>readDataElement\<close> (lines 713 to 762): the tag, the VR and the VL. The
  result is \<open>tag\<close>, \<open>vr\<close>, \<open>vlString\<close>, \<open>vl\<close> and \<open>offset\<close> as they stand at line 763.
\<close>

definition readVR ::
  "jsenv \<Rightarrow> dataReader \<Rightarrow> arrayBuffer \<Rightarrow> tag \<Rightarrow> nat \<Rightarrow> bool \<Rightarrow> (string \<times> bool \<times> nat) outcome"
where
  "readVR env reader buffer tag' offset implicit =
     (if isTagWithVR (tag_group tag') (tag_element tag') then
        (if implicit then
           Return (case dictionary env (tag_group tag') (tag_element tag') of
                     None \<Rightarrow> ''UN'' | Some v \<Rightarrow> v,
                   True, offset)
         else
           andThen (readString reader buffer offset 2) (\<lambda>vr.
             let offset = offset + 2;
                 is32 = is32bitVLVR vr
             in Return (vr, is32, if is32 then offset + 2 else offset)))
      else Return (''UN'', True, offset))"

definition readVL ::
  "dataReader \<Rightarrow> arrayBuffer \<Rightarrow> bool \<Rightarrow> nat \<Rightarrow> (vl \<times> nat \<times> nat) outcome"
where
  "readVL reader buffer is32 offset =
     andThen (if is32 then andThen (readUint32 reader buffer offset) (\<lambda>v. Return (v, offset + 4))
              else andThen (readUint16 reader buffer offset) (\<lambda>v. Return (v, offset + 2)))
       (\<lambda>(v, offset).
          if v = 4294967295 then Return (UndefinedLength, 0, offset)
          else Return (VL v, v, offset))"

definition readHeader ::
  "jsenv \<Rightarrow> dataReader \<Rightarrow> arrayBuffer \<Rightarrow> nat \<Rightarrow> bool \<Rightarrow> (tag \<times> string \<times> vl \<times> nat \<times> nat) outcome"
where
  "readHeader env reader buffer offset implicit =
     andThen (readTag reader buffer offset) (\<lambda>tag'.
     andThen (readVR env reader buffer tag' (tag_endOffset tag') implicit) (\<lambda>(vr, is32, offset).
     andThen (readVL reader buffer is32 offset) (\<lambda>(vlString, vl, offset).
       Return (tag', vr, vlString, vl, offset))))"

text \<open>
  \<open>typeof this.dicomElements.x00280100 !== 'undefined' &&
  this.dicomElements.x00280100.value[0] === 8\<close>. Only a number is equal to 8: the first
  element of a typed array that stands for 8 (the bit pattern of 8 in the float formats is
  0x41000000 and 0x4020000000000000).
\<close>

fun isNumber8 :: "arrayType \<Rightarrow> nat \<Rightarrow> bool" where
  "isNumber8 Float32 raw = (raw = 1090519040)"
| "isNumber8 Float64 raw = (raw = 4620693217682128896)"
| "isNumber8 T raw = (raw = 8)"

definition isBitsAllocated8 :: "jsenv \<Rightarrow> arrayBuffer \<Rightarrow> elements \<Rightarrow> bool" where
  "isBitsAllocated8 env buffer dicomElements =
     (case map_of dicomElements ''x00280100'' of
        None \<Rightarrow> False
      | Some e \<Rightarrow>
          (case val e of
             TypedArray a \<Rightarrow>
               (case ta_elements (isNativeLittleEndian env) buffer a of
                  [] \<Rightarrow> False
                | x # xs \<Rightarrow> isNumber8 (ta_type a) x)
           | Array cs \<Rightarrow> False))"

text \<open>
  The loop of the AT branch (lines 829 to 838) over the elements of \<open>raw\<close>, two at a time;
  \<open>raw[i+1]\<close> is undefined when the length is odd, and its \<open>toString\<close> throws a TypeError.
\<close>

definition pad4 :: "nat \<Rightarrow> string" where
  "pad4 x = (let stri = toString16 x in substr ''0000'' 0 (4 - length stri) @ toUpperCase stri)"

fun readAT_loop :: "nat list \<Rightarrow> component list outcome" where
  "readAT_loop [] = Return []"
| "readAT_loop [x] = Throw TypeError"
| "readAT_loop (x # y # raw) =
     andThen (readAT_loop raw)
       (\<lambda>data'. Return (Str (''('' @ pad4 x @ '','' @ pad4 y @ '')'') # data'))"

text \<open>\<open>String.prototype.split("\\")\<close>: the pieces between backslashes, at least one.\<close>

fun split_backslash :: "string \<Rightarrow> string list" where
  "split_backslash [] = [[]]"
| "split_backslash (c # cs) =
     (if c = CHR 0x5C then [] # split_backslash cs
      else (case split_backslash cs of
              [] \<Rightarrow> [[c]]
            | p # ps \<Rightarrow> (c # p) # ps))"

text \<open>One typed-array branch of the value: \<open>data = reader.read...; offset += vl\<close>.\<close>

definition readArrayValue ::
  "(typedArray \<times> arrayBuffer) outcome \<Rightarrow> nat \<Rightarrow> (dvalue \<times> nat \<times> arrayBuffer) outcome"
where
  "readArrayValue r offset' =
     andThen r (\<lambda>(data', buffer). Return (TypedArray data', offset', buffer))"

text \<open>
  \<open>readDataElement\<close>, \<open>readItemDataElement\<close> and \<open>readPixelItemDataElement\<close> (lines 617 to
  894) call each other. In the model the two item readers and their loops take the reader of
  nested elements as a parameter \<open>rde\<close>, which stands for
  \<open>this.readDataElement(reader, offset, implicit)\<close> as a function of the array buffer and the
  offset; \<open>readDataElement\<close> passes itself, with one unit of fuel less. The fuel that
  remains also bounds the number of iterations of each loop. The array buffer goes through every
  call and comes back with the result.
\<close>

type_synonym elementReader = "arrayBuffer \<Rightarrow> nat \<Rightarrow> (dataElement \<times> arrayBuffer) outcome"

text \<open>
  \<open>readItemDataElement\<close> (lines 617 to 669): the loop of an item of explicit length (lines
  644 to 648), the loop of an item of undefined length (lines 655 to 662), and the function.
  \<open>itemData[item.tag.name] = item\<close> is \<open>AList.update\<close>.
\<close>

fun readItem_explicit ::
  "nat \<Rightarrow> elementReader \<Rightarrow> arrayBuffer \<Rightarrow> nat \<Rightarrow> nat \<Rightarrow> elements \<Rightarrow>
   (itemResult \<times> arrayBuffer) outcome"
where
  "readItem_explicit 0 rde buffer offset endOffset' itemData = OutOfFuel"
| "readItem_explicit (Suc k) rde buffer offset endOffset' itemData =
     (if offset < endOffset' then
        andThen (rde buffer offset) (\<lambda>(item, buffer).
          readItem_explicit k rde buffer (endOffset item) endOffset'
            (AList.update (tag_name (tag item)) item itemData))
      else Return (ItemResult itemData offset False, buffer))"

fun readItem_undefined ::
  "nat \<Rightarrow> elementReader \<Rightarrow> arrayBuffer \<Rightarrow> nat \<Rightarrow> elements \<Rightarrow>
   (itemResult \<times> arrayBuffer) outcome"
where
  "readItem_undefined 0 rde buffer offset itemData = OutOfFuel"
| "readItem_undefined (Suc k) rde buffer offset itemData =
     andThen (rde buffer offset) (\<lambda>(item, buffer).
       if \<not> (tag_name (tag item) = ''xFFFEE00D'') then
         readItem_undefined k rde buffer (endOffset item)
           (AList.update (tag_name (tag item)) item itemData)
       else Return (ItemResult itemData (endOffset item) False, buffer))"

definition readItemDataElement_on ::
  "nat \<Rightarrow> elementReader \<Rightarrow> arrayBuffer \<Rightarrow> nat \<Rightarrow> (itemResult \<times> arrayBuffer) outcome"
where
  "readItemDataElement_on k rde buffer offset =
     andThen (rde buffer offset) (\<lambda>(item, buffer).
       let offset = endOffset item in
       if tag_name (tag item) = ''xFFFEE0DD'' then
         Return (ItemResult [] (endOffset item) True, buffer)
       else
         (let itemData = AList.update (tag_name (tag item)) item [] in
          case vl item of
            VL itemVl \<Rightarrow>
              (if itemVl \<noteq> 0 then
                 readItem_explicit k rde buffer (offset - itemVl) offset itemData
               else Return (ItemResult itemData offset False, buffer))
          | UndefinedLength \<Rightarrow> readItem_undefined k rde buffer offset itemData))"

text \<open>
  \<open>readPixelItemDataElement\<close> (lines 679 to 701) and its loop (lines 689 to 696).
\<close>

fun readPixelItem_loop ::
  "nat \<Rightarrow> elementReader \<Rightarrow> arrayBuffer \<Rightarrow> nat \<Rightarrow> dataElement list \<Rightarrow>
   (pixelItemResult \<times> arrayBuffer) outcome"
where
  "readPixelItem_loop 0 rde buffer offset itemData = OutOfFuel"
| "readPixelItem_loop (Suc k) rde buffer offset itemData =
     andThen (rde buffer offset) (\<lambda>(item, buffer).
       if \<not> (tag_name (tag item) = ''xFFFEE0DD'') then
         readPixelItem_loop k rde buffer (endOffset item) (itemData @ [item])
       else Return (PixelItemResult itemData (endOffset item), buffer))"

definition readPixelItemDataElement_on ::
  "nat \<Rightarrow> elementReader \<Rightarrow> arrayBuffer \<Rightarrow> nat \<Rightarrow> (pixelItemResult \<times> arrayBuffer) outcome"
where
  "readPixelItemDataElement_on k rde buffer offset =
     andThen (rde buffer offset) (\<lambda>(item, buffer).
       readPixelItem_loop k rde buffer (endOffset item) [])"

text \<open>
  The two loops of the SQ branch of \<open>readDataElement\<close>: explicit length (lines 856 to 860)
  and undefined length (lines 867 to 875). \<open>rid\<close> stands for
  \<open>this.readItemDataElement(reader, offset, implicit)\<close>.
\<close>

type_synonym itemReader = "arrayBuffer \<Rightarrow> nat \<Rightarrow> (itemResult \<times> arrayBuffer) outcome"

fun readSQ_explicit ::
  "nat \<Rightarrow> itemReader \<Rightarrow> arrayBuffer \<Rightarrow> nat \<Rightarrow> nat \<Rightarrow> component list \<Rightarrow>
   (dvalue \<times> nat \<times> arrayBuffer) outcome"
where
  "readSQ_explicit 0 rid buffer offset sqEndOffset data' = OutOfFuel"
| "readSQ_explicit (Suc k) rid buffer offset sqEndOffset data' =
     (if offset < sqEndOffset then
        andThen (rid buffer offset) (\<lambda>(itemData, buffer).
          readSQ_explicit k rid buffer (item_endOffset itemData) sqEndOffset
            (data' @ [Item (item_data itemData)]))
      else Return (Array data', offset, buffer))"

fun readSQ_undefined ::
  "nat \<Rightarrow> itemReader \<Rightarrow> arrayBuffer \<Rightarrow> nat \<Rightarrow> component list \<Rightarrow>
   (dvalue \<times> nat \<times> arrayBuffer) outcome"
where
  "readSQ_undefined 0 rid buffer offset data' = OutOfFuel"
| "readSQ_undefined (Suc k) rid buffer offset data' =
     andThen (rid buffer offset) (\<lambda>(itemData, buffer).
       if \<not> isSeqDelim itemData then
         readSQ_undefined k rid buffer (item_endOffset itemData)
           (data' @ [Item (item_data itemData)])
       else Return (Array data', item_endOffset itemData, buffer))"

text \<open>
  The second part of \<open>readDataElement\<close> (lines 764 to 884): the value, as \<open>data\<close>, the new
  \<open>offset\<close> and the buffer.
\<close>

definition readValue ::
  "nat \<Rightarrow> elementReader \<Rightarrow> jsenv \<Rightarrow> elements \<Rightarrow> dataReader \<Rightarrow> arrayBuffer \<Rightarrow>
   tag \<Rightarrow> string \<Rightarrow> vl \<Rightarrow> nat \<Rightarrow> nat \<Rightarrow> (dvalue \<times> nat \<times> arrayBuffer) outcome"
where
  "readValue k rde env this reader buffer tag' vr' vlString vl' offset =
     (if tag_name tag' = ''x7FE00010'' \<and> vlString = UndefinedLength then
        andThen (readPixelItemDataElement_on k rde buffer offset) (\<lambda>(pixItemData, buffer).
          Return (Array (map Elem (pix_data pixItemData)), pix_endOffset pixItemData, buffer))
      else if vr' = ''OW'' \<or> vr' = ''OF'' \<or> vr' = ''ox'' then
        (if isBitsAllocated8 env buffer this then
           andThen (readUint8Array reader buffer offset vl')
             (\<lambda>data'. Return (TypedArray data', offset + vl', buffer))
         else readArrayValue (readUint16Array reader buffer offset vl') (offset + vl'))
      else if vr' = ''OB'' then
        andThen (readUint8Array reader buffer offset vl')
          (\<lambda>data'. Return (TypedArray data', offset + vl', buffer))
      else if vr' = ''US'' then
        readArrayValue (readUint16Array reader buffer offset vl') (offset + vl')
      else if vr' = ''UL'' then
        readArrayValue (readUint32Array reader buffer offset vl') (offset + vl')
      else if vr' = ''SS'' then
        readArrayValue (readInt16Array reader buffer offset vl') (offset + vl')
      else if vr' = ''SL'' then
        readArrayValue (readInt32Array reader buffer offset vl') (offset + vl')
      else if vr' = ''FL'' then
        readArrayValue (readFloat32Array reader buffer offset vl') (offset + vl')
      else if vr' = ''FD'' then
        readArrayValue (readFloat64Array reader buffer offset vl') (offset + vl')
      else if vr' = ''AT'' then
        andThen (readUint16Array reader buffer offset vl') (\<lambda>(raw, buffer).
        andThen (readAT_loop (ta_elements (isNativeLittleEndian env) buffer raw)) (\<lambda>data'.
          Return (Array data', offset + vl', buffer)))
      else if vr' = ''UN'' then
        andThen (readUint8Array reader buffer offset vl')
          (\<lambda>data'. Return (TypedArray data', offset + vl', buffer))
      else if vr' = ''SQ'' then
        (if vlString \<noteq> UndefinedLength then
           (if vl' \<noteq> 0 then
              readSQ_explicit k (readItemDataElement_on k rde) buffer offset (offset + vl') []
            else Return (Array [], offset, buffer))
         else readSQ_undefined k (readItemDataElement_on k rde) buffer offset [])
      else
        andThen (readString reader buffer offset vl')
          (\<lambda>data'. Return (Array (map Str (split_backslash data')), offset + vl', buffer)))"

primrec readDataElement ::
  "nat \<Rightarrow> jsenv \<Rightarrow> elements \<Rightarrow> dataReader \<Rightarrow> arrayBuffer \<Rightarrow> nat \<Rightarrow> bool \<Rightarrow>
   (dataElement \<times> arrayBuffer) outcome"
where
  "readDataElement 0 = (\<lambda>env this reader buffer offset implicit. OutOfFuel)"
| "readDataElement (Suc n) = (\<lambda>env this reader buffer offset implicit.
     andThen (readHeader env reader buffer offset implicit) (\<lambda>(tag', vr, vlString, vl, offset).
     andThen (readValue n (\<lambda>buffer offset. readDataElement n env this reader buffer offset implicit)
                env this reader buffer tag' vr vlString vl offset)
       (\<lambda>(data', offset, buffer).
          Return (DataElement tag' vr vlString data' offset, buffer))))"

text \<open>The two item readers as the source names them, at a given fuel.\<close>

definition readItemDataElement ::
  "nat \<Rightarrow> jsenv \<Rightarrow> elements \<Rightarrow> dataReader \<Rightarrow> arrayBuffer \<Rightarrow> nat \<Rightarrow> bool \<Rightarrow>
   (itemResult \<times> arrayBuffer) outcome"
where
  "readItemDataElement n env this reader buffer offset implicit =
     readItemDataElement_on n
       (\<lambda>buffer offset. readDataElement n env this reader buffer offset implicit) buffer offset"

definition readPixelItemDataElement ::
  "nat \<Rightarrow> jsenv \<Rightarrow> elements \<Rightarrow> dataReader \<Rightarrow> arrayBuffer \<Rightarrow> nat \<Rightarrow> bool \<Rightarrow>
   (pixelItemResult \<times> arrayBuffer) outcome"
where
  "readPixelItemDataElement n env this reader buffer offset implicit =
     readPixelItemDataElement_on n
       (\<lambda>buffer offset. readDataElement n env this reader buffer offset implicit) buffer offset"

section \<open>DicomParser\<close>

text \<open>
  The parser object: \<open>this.dicomElements\<close> (an object, as the list of its keys and values)
  and \<open>this.pixelBuffer\<close>; \<open>DicomParser\<close> is the state that the constructor leaves.
\<close>

record parser =
  dicomElements :: elements
  pixelBuffer :: dvalue

definition DicomParser :: parser where
  "DicomParser = \<lparr>dicomElements = [], pixelBuffer = Array []\<rparr>"

text \<open>
  \<open>parseInt(s, 10)\<close> of a string: white space is skipped, then a sign, then the longest run
  of decimal digits; NaN (\<open>None\<close>) when there is no digit. The result is the exact integer;
  JavaScript rounds it to a double, which makes no difference to a comparison with an offset
  below \<open>2 ^ 53\<close>.
\<close>

definition isDigit :: "char \<Rightarrow> bool" where
  "isDigit c = ((48::nat) \<le> of_char c \<and> of_char c \<le> (57::nat))"

definition parseInt10 :: "string \<Rightarrow> int option" where
  "parseInt10 s =
     (let s1 = dropWhile (\<lambda>c. isWhiteSpace (of_char c)) s;
          negative = (s1 \<noteq> [] \<and> hd s1 = CHR ''-'');
          s2 = (if s1 \<noteq> [] \<and> (hd s1 = CHR ''-'' \<or> hd s1 = CHR ''+'') then tl s1 else s1);
          ds = takeWhile isDigit s2;
          n = foldl (\<lambda>a c. 10 * a + (of_char c - 48)) (0::nat) ds
      in if ds = [] then None else Some (if negative then - int n else int n))"

text \<open>
  \<open>parseInt(dataElement.value[0], 10)\<close> (line 924). \<open>value[0]\<close> is a number, a string, an
  object or undefined; the last two give NaN.
\<close>

definition parseInt_value0 :: "jsenv \<Rightarrow> arrayBuffer \<Rightarrow> dvalue \<Rightarrow> int option" where
  "parseInt_value0 env buffer v =
     (case v of
        TypedArray a \<Rightarrow>
          (case ta_elements (isNativeLittleEndian env) buffer a of
             [] \<Rightarrow> None
           | x # xs \<Rightarrow>
               (if ta_type a = Float32 then parseInt_float32 env x
                else if ta_type a = Float64 then parseInt_float64 env x
                else Some (intValue (ta_type a) x)))
      | Array cs \<Rightarrow>
          (case cs of
             Str s # cs' \<Rightarrow> parseInt10 s
           | _ \<Rightarrow> None))"

text \<open>
  The loop over the meta elements (lines 928 to 935). \<open>metaEnd\<close> is \<open>None\<close> when it is NaN,
  and then \<open>offset < metaEnd\<close> is false. \<open>k\<close> bounds the iterations, \<open>n\<close> is the fuel of each
  \<open>readDataElement\<close>.
\<close>

fun parse_metaLoop ::
  "nat \<Rightarrow> nat \<Rightarrow> jsenv \<Rightarrow> elements \<Rightarrow> dataReader \<Rightarrow> arrayBuffer \<Rightarrow> nat \<Rightarrow> int option \<Rightarrow>
   (elements \<times> nat \<times> arrayBuffer) outcome"
where
  "parse_metaLoop 0 n env this metaReader buffer offset metaEnd = OutOfFuel"
| "parse_metaLoop (Suc k) n env this metaReader buffer offset metaEnd =
     (if (case metaEnd of None \<Rightarrow> False | Some m \<Rightarrow> int offset < m) then
        andThen (readDataElement n env this metaReader buffer offset False)
          (\<lambda>(dataElement, buffer).
             parse_metaLoop k n env
               (AList.update (tag_name (tag dataElement)) dataElement this)
               metaReader buffer (endOffset dataElement) metaEnd)
      else Return (this, offset, buffer))"

text \<open>
  \<open>dwv.dicom.cleanString(this.dicomElements.x00020010.value[0])\<close> (line 938). When the
  element is missing, reading its \<open>value\<close> throws a TypeError. When \<open>value[0]\<close> is not a string,
  a TypeError is thrown as well, before the data set is read: by \<open>string.trim()\<close> in
  \<open>cleanString\<close> when \<open>value[0]\<close> is an object or a number other than 0 and NaN, and by
  \<open>syntax.match\<close> at line 965 when it is 0, NaN or undefined (every comparison before that
  line is then false).
\<close>

definition parse_syntax :: "elements \<Rightarrow> ustring outcome" where
  "parse_syntax this =
     (case map_of this ''x00020010'' of
        None \<Rightarrow> Throw TypeError
      | Some e \<Rightarrow>
          (case val e of
             Array (Str s # cs) \<Rightarrow> Return (cleanString (js s))
           | _ \<Rightarrow> Throw TypeError))"

text \<open>
  The transfer syntax switch (lines 940 to 986): \<open>implicit\<close> and \<open>dataReader\<close> after it, or
  the error thrown.
\<close>

definition parse_transferSyntax ::
  "jsenv \<Rightarrow> ustring \<Rightarrow> dataReader \<Rightarrow> (bool \<times> dataReader) outcome"
where
  "parse_transferSyntax env syntax dataReader' =
     (if syntax = js ''1.2.840.10008.1.2.1'' then Return (False, dataReader')
      else if syntax = js ''1.2.840.10008.1.2'' then Return (True, dataReader')
      else if syntax = js ''1.2.840.10008.1.2.1.99'' then
        Throw (Error (js ''Unsupported DICOM transfer syntax (Deflated Explicit VR): '' @ syntax))
      else if syntax = js ''1.2.840.10008.1.2.2'' then Return (False, DataReader env False)
      else if isJpegBaselineTransferSyntax (Some syntax) then Return (False, dataReader')
      else if isJpegLosslessTransferSyntax (Some syntax) then Return (False, dataReader')
      else if isJpegNonSupportedTransferSyntax syntax then
        Throw (Error (js ''Unsupported DICOM transfer syntax (retired JPEG): '' @ syntax))
      else if isJpeglsTransferSyntax syntax then
        Throw (Error (js ''Unsupported DICOM transfer syntax (JPEG-LS): '' @ syntax))
      else if isJpeg2000TransferSyntax syntax then Return (False, dataReader')
      else if syntax = js ''1.2.840.10008.1.2.4.100'' then
        Throw (Error (js ''Unsupported DICOM transfer syntax (MPEG2): '' @ syntax))
      else if syntax = js ''1.2.840.10008.1.2.5'' then
        Throw (Error (js ''Unsupported DICOM transfer syntax (RLE): '' @ syntax))
      else Throw (Error (js ''Unknown transfer syntax: '' @ syntax)))"

text \<open>The loop over the data set (lines 989 to 997).\<close>

fun parse_dataLoop ::
  "nat \<Rightarrow> nat \<Rightarrow> jsenv \<Rightarrow> elements \<Rightarrow> dataReader \<Rightarrow> arrayBuffer \<Rightarrow> nat \<Rightarrow> bool \<Rightarrow>
   (elements \<times> nat \<times> arrayBuffer) outcome"
where
  "parse_dataLoop 0 n env this dataReader' buffer offset implicit = OutOfFuel"
| "parse_dataLoop (Suc k) n env this dataReader' buffer offset implicit =
     (if offset < length buffer then
        andThen (readDataElement n env this dataReader' buffer offset implicit)
          (\<lambda>(dataElement, buffer).
             parse_dataLoop k n env
               (AList.update (tag_name (tag dataElement)) dataElement this)
               dataReader' buffer (endOffset dataElement) implicit)
      else Return (this, offset, buffer))"

text \<open>
  The pixel buffer (lines 999 to 1018). \<open>newBuffer.set(array, offset)\<close> stores each element
  of \<open>array\<close> converted to an unsigned 16-bit integer: an integer modulo 65536, a float and a
  string as the environment says (taken modulo 65536, since an element of a \<open>Uint16Array\<close> is
  below 65536), an object as 0 (it converts to NaN).
\<close>

definition value_length :: "dvalue \<Rightarrow> nat" where
  "value_length v = (case v of TypedArray a \<Rightarrow> ta_length a | Array cs \<Rightarrow> length cs)"

definition numberToUint16 :: "jsenv \<Rightarrow> arrayType \<Rightarrow> nat \<Rightarrow> nat" where
  "numberToUint16 env T raw =
     (if T = Float32 then toUint16_float32 env raw mod 65536
      else if T = Float64 then toUint16_float64 env raw mod 65536
      else nat (intValue T raw mod 65536))"

definition toUint16s :: "jsenv \<Rightarrow> arrayBuffer \<Rightarrow> dvalue \<Rightarrow> nat list" where
  "toUint16s env buffer v =
     (case v of
        TypedArray a \<Rightarrow>
          map (numberToUint16 env (ta_type a)) (ta_elements (isNativeLittleEndian env) buffer a)
      | Array cs \<Rightarrow>
          map (\<lambda>c. case c of Str s \<Rightarrow> toUint16_string env s mod 65536 | _ \<Rightarrow> 0) cs)"

text \<open>
  The loop over \<open>items\<close> (lines 1010 to 1016). \<open>items[i].value\<close> is undefined unless
  \<open>items[i]\<close> is a data element, and reading the \<open>length\<close> of undefined throws a TypeError.
\<close>

fun parse_concat :: "jsenv \<Rightarrow> arrayBuffer \<Rightarrow> component list \<Rightarrow> dvalue \<Rightarrow> dvalue outcome" where
  "parse_concat env buffer [] pixelBuffer' = Return pixelBuffer'"
| "parse_concat env buffer (Elem item # items) pixelBuffer' =
     parse_concat env buffer items
       (TypedArray (NewArray Uint16
          (toUint16s env buffer pixelBuffer' @ toUint16s env buffer (val item))))"
| "parse_concat env buffer (c # items) pixelBuffer' = Throw TypeError"

definition parse_pixelBuffer :: "jsenv \<Rightarrow> arrayBuffer \<Rightarrow> elements \<Rightarrow> dvalue \<Rightarrow> dvalue outcome" where
  "parse_pixelBuffer env buffer this pixelBuffer' =
     (case map_of this ''x7FE00010'' of
        None \<Rightarrow> Return pixelBuffer'
      | Some e \<Rightarrow>
          (if vl e \<noteq> UndefinedLength then Return (val e)
           else (case val e of
                   Array items \<Rightarrow> parse_concat env buffer items pixelBuffer'
                 | TypedArray a \<Rightarrow>
                     (if ta_length a = 0 then Return pixelBuffer' else Throw TypeError))))"

text \<open>
  \<open>parse\<close> (lines 901 to 1019), on the parser \<open>this\<close>, in three parts: the magic word
  (lines 909 to 916), the meta elements (lines 918 to 935, \<open>parse_meta\<close>) and the data set
  with the pixel buffer (lines 937 to 1018, \<open>parse_dataSet\<close>). Both readers are made at lines
  906 and 907 and look at the same array buffer. The result is the parser after the call and
  the array buffer, which the typed arrays of the elements look at.
\<close>

definition parse_meta ::
  "nat \<Rightarrow> jsenv \<Rightarrow> elements \<Rightarrow> arrayBuffer \<Rightarrow> nat \<Rightarrow> (elements \<times> nat \<times> arrayBuffer) outcome"
where
  "parse_meta n env this buffer offset =
     (let metaReader = DataReader env True in
      andThen (readDataElement n env this metaReader buffer offset False)
        (\<lambda>(dataElement, buffer).
      let offset = endOffset dataElement;
          this = AList.update (tag_name (tag dataElement)) dataElement this;
          metaLength = parseInt_value0 env buffer (val dataElement);
          metaEnd = map_option (\<lambda>m. int offset + m) metaLength
      in parse_metaLoop n n env this metaReader buffer offset metaEnd))"

definition parse_dataSet ::
  "nat \<Rightarrow> jsenv \<Rightarrow> elements \<Rightarrow> dvalue \<Rightarrow> arrayBuffer \<Rightarrow> nat \<Rightarrow> (parser \<times> arrayBuffer) outcome"
where
  "parse_dataSet n env this pixelBuffer' buffer offset =
     andThen (parse_syntax this) (\<lambda>syntax.
     andThen (parse_transferSyntax env syntax (DataReader env True)) (\<lambda>(implicit, dataReader').
     andThen (parse_dataLoop n n env this dataReader' buffer offset implicit)
       (\<lambda>(this, offset, buffer).
     andThen (parse_pixelBuffer env buffer this pixelBuffer') (\<lambda>pixelBuffer'.
       Return (\<lparr>dicomElements = this, pixelBuffer = pixelBuffer'\<rparr>, buffer)))))"

definition parse :: "nat \<Rightarrow> jsenv \<Rightarrow> parser \<Rightarrow> arrayBuffer \<Rightarrow> (parser \<times> arrayBuffer) outcome" where
  "parse n env this buffer =
     andThen (readString (DataReader env True) buffer 128 4) (\<lambda>magicword.
       if magicword \<noteq> ''DICM'' then
         Throw (Error (js ''Not a valid DICOM file (no magic DICM word found)''))
       else
         andThen (parse_meta n env (dicomElements this) buffer (128 + 4))
           (\<lambda>(els, offset, buffer).
              parse_dataSet n env els (pixelBuffer this) buffer offset))"

section \<open>DicomElementsWrapper\<close>

text \<open>
  What \<open>getFromKey\<close> returns: null, the component \<open>value[0]\<close> (a number when the value is a
  typed array) or the whole value.
\<close>

datatype jsvalue = Null | Number arrayType nat | Component component | Value dvalue

definition getFromKey :: "jsenv \<Rightarrow> arrayBuffer \<Rightarrow> elements \<Rightarrow> string \<Rightarrow> bool \<Rightarrow> jsvalue" where
  "getFromKey env buffer dicomElements' groupElementKey asArray =
     (case map_of dicomElements' groupElementKey of
        None \<Rightarrow> Null
      | Some dElement \<Rightarrow>
          (if value_length (val dElement) = 1 \<and> asArray = False then
             (case val dElement of
                TypedArray a \<Rightarrow>
                  Number (ta_type a) (hd (ta_elements (isNativeLittleEndian env) buffer a))
              | Array cs \<Rightarrow> Component (hd cs))
           else Value (val dElement)))"

definition getFromGroupElement ::
  "jsenv \<Rightarrow> arrayBuffer \<Rightarrow> elements \<Rightarrow> string \<Rightarrow> string \<Rightarrow> jsvalue"
where
  "getFromGroupElement env buffer dicomElements' group' element' =
     getFromKey env buffer dicomElements' (getGroupElementKey group' element') False"

section \<open>Example inputs\<close>

text \<open>
  A little-endian platform with an empty dictionary; the conversions that the examples never
  reach are constant. \<open>ascii\<close> gives the bytes of a text.
\<close>

definition env0 :: jsenv where
  "env0 = \<lparr>isNativeLittleEndian = True, dictionary = (\<lambda>g e. None),
     parseInt_float32 = (\<lambda>x. None), parseInt_float64 = (\<lambda>x. None),
     toUint16_float32 = (\<lambda>x. 0), toUint16_float64 = (\<lambda>x. 0),
     toUint16_string = (\<lambda>s. 0)\<rparr>"

definition ascii :: "string \<Rightarrow> byte list" where
  "ascii s = map (\<lambda>c. of_nat (of_char c)) s"

text \<open>
  Encapsulated pixel data in explicit VR little endian: the element (7FE0,0010) OB of
  undefined length, the basic offset table item (empty), two fragment items of two bytes each,
  and the sequence delimitation item.
\<close>

definition pixels :: "byte list" where
  "pixels =
     [0xE0, 0x7F, 0x10, 0x00, 0x4F, 0x42, 0, 0, 0xFF, 0xFF, 0xFF, 0xFF,
      0xFE, 0xFF, 0x00, 0xE0, 0, 0, 0, 0,
      0xFE, 0xFF, 0x00, 0xE0, 2, 0, 0, 0, 0xAA, 0xBB,
      0xFE, 0xFF, 0x00, 0xE0, 2, 0, 0, 0, 0xCC, 0xDD,
      0xFE, 0xFF, 0xDD, 0xE0, 0, 0, 0, 0]"

text \<open>
  A file: preamble, magic word, (0002,0000) UL with the group length 30, (0002,0010) UI with
  the given transfer syntax UID of 22 characters, and a data set.
\<close>

definition dicomFile :: "string \<Rightarrow> byte list \<Rightarrow> byte list" where
  "dicomFile uid dataSet =
     replicate 128 0 @ ascii ''DICM''
     @ [0x02, 0x00, 0x00, 0x00, 0x55, 0x4C, 4, 0, 0x1E, 0, 0, 0]
     @ [0x02, 0x00, 0x10, 0x00, 0x55, 0x49, 0x16, 0] @ ascii uid
     @ dataSet"

text \<open>
  Data elements in explicit VR little endian: (0010,0010) PN of length 0; (0028,0010) US of
  length 2; (0008,1140) SQ of undefined length that holds the sequence delimitation item
  only.
\<close>

definition emptyName :: "byte list" where
  "emptyName = [0x10, 0x00, 0x10, 0x00, 0x50, 0x4E, 0, 0]"



text \<open>
  (0040,0275) SQ of undefined length with one item of undefined length, which holds
  (0008,0100) SH \<open>CODE1\<close> and a space; then the item delimitation item and the sequence
  delimitation item.
\<close>

definition sequence1 :: "byte list" where
  "sequence1 =
     [0x40, 0x00, 0x75, 0x02, 0x53, 0x51, 0, 0, 0xFF, 0xFF, 0xFF, 0xFF,
      0xFE, 0xFF, 0x00, 0xE0, 0xFF, 0xFF, 0xFF, 0xFF,
      0x08, 0x00, 0x00, 0x01, 0x53, 0x48, 6, 0, 0x43, 0x4F, 0x44, 0x45, 0x31, 0x20,
      0xFE, 0xFF, 0x0D, 0xE0, 0, 0, 0, 0,
      0xFE, 0xFF, 0xDD, 0xE0, 0, 0, 0, 0]"

text \<open>
  What the readers return on these inputs: the four items of \<open>pixels\<close> as data elements, and
  the two item results of \<open>sequence1\<close>.
\<close>

definition pixels_bot :: dataElement where
  "pixels_bot = DataElement (Tag ''0xFFFE'' ''0xE000'' ''xFFFEE000'' 16) ''UN'' (VL 0)
     (TypedArray (BufferView Uint8 20 0)) 20"

definition pixels_fragment1 :: dataElement where
  "pixels_fragment1 = DataElement (Tag ''0xFFFE'' ''0xE000'' ''xFFFEE000'' 24) ''UN'' (VL 2)
     (TypedArray (BufferView Uint8 28 2)) 30"

definition pixels_fragment2 :: dataElement where
  "pixels_fragment2 = DataElement (Tag ''0xFFFE'' ''0xE000'' ''xFFFEE000'' 34) ''UN'' (VL 2)
     (TypedArray (BufferView Uint8 38 2)) 40"

definition pixels_delimiter :: dataElement where
  "pixels_delimiter = DataElement (Tag ''0xFFFE'' ''0xE0DD'' ''xFFFEE0DD'' 44) ''UN'' (VL 0)
     (TypedArray (BufferView Uint8 48 0)) 48"

definition sequence1_item :: itemResult where
  "sequence1_item = ItemResult
     [(''xFFFEE000'',
       DataElement (Tag ''0xFFFE'' ''0xE000'' ''xFFFEE000'' 16) ''UN'' UndefinedLength
         (TypedArray (BufferView Uint8 20 0)) 20),
      (''x00080100'',
       DataElement (Tag ''0x0008'' ''0x0100'' ''x00080100'' 24) ''SH'' (VL 6)
         (Array [Str ''CODE1 '']) 34)]
     42 False"

definition sequence1_element :: dataElement where
  "sequence1_element = DataElement (Tag ''0x0040'' ''0x0275'' ''x00400275'' 4) ''SQ''
     UndefinedLength (Array [Item (item_data sequence1_item)]) 50"











text \<open>
  The element (7FE0,0010) with the VR SQ and undefined length, followed by two sequence
  delimitation items, in explicit VR little endian; the two items and the element as
  \<open>readDataElement\<close> returns them.
\<close>

definition pixelSequence :: "byte list" where
  "pixelSequence =
     [0xE0, 0x7F, 0x10, 0x00, 0x53, 0x51, 0, 0, 0xFF, 0xFF, 0xFF, 0xFF,
      0xFE, 0xFF, 0xDD, 0xE0, 0, 0, 0, 0,
      0xFE, 0xFF, 0xDD, 0xE0, 0, 0, 0, 0]"

definition pixelSequence_delimiter1 :: dataElement where
  "pixelSequence_delimiter1 = DataElement (Tag ''0xFFFE'' ''0xE0DD'' ''xFFFEE0DD'' 16) ''UN''
     (VL 0) (TypedArray (BufferView Uint8 20 0)) 20"

definition pixelSequence_delimiter2 :: dataElement where
  "pixelSequence_delimiter2 = DataElement (Tag ''0xFFFE'' ''0xE0DD'' ''xFFFEE0DD'' 24) ''UN''
     (VL 0) (TypedArray (BufferView Uint8 28 0)) 28"

definition pixelSequence_element :: dataElement where
  "pixelSequence_element = DataElement (Tag ''0x7FE0'' ''0x0010'' ''x7FE00010'' 4) ''SQ''
     UndefinedLength (Array []) 28"

section \<open>Descriptions used in the statements\<close>




text \<open>
  The size of the prefix of a data element (tag, VR and VL): 8 bytes under implicit VR and
  for the three tags without VR, and otherwise what \<open>getDataElementPrefixByteSize\<close> gives
  for the VR. The number of value bytes that the VL field announces: 0 when it is undefined.
\<close>

definition prefixSize :: "bool \<Rightarrow> tag \<Rightarrow> string \<Rightarrow> nat" where
  "prefixSize implicit t v =
     (if isTagWithVR (tag_group t) (tag_element t) \<and> \<not> implicit
      then getDataElementPrefixByteSize v else 8)"

definition effectiveVL :: "vl \<Rightarrow> nat" where
  "effectiveVL l = (case l of VL k \<Rightarrow> k | UndefinedLength \<Rightarrow> 0)"


text \<open>The VRs that no branch of \<open>readDataElement\<close> names: their value is read as a string.\<close>

definition isStringVR :: "string \<Rightarrow> bool" where
  "isStringVR v =
     (v \<notin> set [''OW'', ''OF'', ''ox'', ''OB'', ''US'', ''UL'', ''SS'', ''SL'', ''FL'', ''FD'',
                 ''AT'', ''UN'', ''SQ''])"

text \<open>
  A reader of elements advances when every element that it returns ends at least 8 bytes,
  and the bytes of a defined value length, after the offset it was read at, and leaves the
  length of the buffer as it was. The same for a reader of items.
\<close>

definition advances :: "elementReader \<Rightarrow> bool" where
  "advances rde =
     (\<forall>buffer offset e buffer'. rde buffer offset = Return (e, buffer') \<longrightarrow>
        offset + 8 + effectiveVL (vl e) \<le> endOffset e \<and> length buffer' = length buffer)"

definition item_advances :: "itemReader \<Rightarrow> bool" where
  "item_advances rid =
     (\<forall>buffer offset r buffer'. rid buffer offset = Return (r, buffer') \<longrightarrow>
        offset + 8 \<le> item_endOffset r \<and> length buffer' = length buffer)"

text \<open>
  \<open>reads rd endOf buffer offset rs buffer' offset'\<close>: reading with \<open>rd\<close> from \<open>offset\<close>, each
  time at the end of the result before, returns the results \<open>rs\<close> one after the other, and
  leaves the buffer \<open>buffer'\<close> and the offset \<open>offset'\<close>.
\<close>

fun reads ::
  "(arrayBuffer \<Rightarrow> nat \<Rightarrow> ('r \<times> arrayBuffer) outcome) \<Rightarrow> ('r \<Rightarrow> nat) \<Rightarrow>
   arrayBuffer \<Rightarrow> nat \<Rightarrow> 'r list \<Rightarrow> arrayBuffer \<Rightarrow> nat \<Rightarrow> bool"
where
  "reads rd endOf buffer offset [] buffer' offset' = (buffer' = buffer \<and> offset' = offset)"
| "reads rd endOf buffer offset (r # rs) buffer' offset' =
     (case rd buffer offset of
        Return (r', b) \<Rightarrow> r' = r \<and> reads rd endOf b (endOf r) rs buffer' offset'
      | _ \<Rightarrow> False)"


chapter \<open>Properties\<close>

section \<open>flipArrayEndianness\<close>

lemma flip_inner_length [simp]: "length (flip_inner j k u8) = length u8"
  by (induction j k u8 rule: flip_inner.induct) (subst flip_inner.simps, simp add: Let_def)

lemma flip_inner_nth:
  "j < length u8 \<Longrightarrow> n < length u8 \<Longrightarrow>
   flip_inner j k u8 ! n = (if k \<le> n \<and> n \<le> j then u8 ! (j + k - n) else u8 ! n)"
proof (induction j k u8 arbitrary: n rule: flip_inner.induct)
  case (1 j k u8)
  show ?case
  proof (cases "j > k")
    case False
    then have "flip_inner j k u8 = u8" by (subst flip_inner.simps) simp
    moreover from False have "k \<le> n \<and> n \<le> j \<Longrightarrow> j + k - n = n" by arith
    ultimately show ?thesis by auto
  next
    case True
    define u8' where "u8' = (u8[k := u8 ! j])[j := u8 ! k]"
    have len: "length u8' = length u8" by (simp add: u8'_def)
    have step: "flip_inner j k u8 = flip_inner (j - 1) (k + 1) u8'"
      using True "1.prems" by (subst flip_inner.simps) (simp add: Let_def u8'_def)
    have IH: "flip_inner (j - 1) (k + 1) u8' ! n =
        (if k + 1 \<le> n \<and> n \<le> j - 1 then u8' ! (j - 1 + (k + 1) - n) else u8' ! n)"
      using "1.IH"[OF True refl refl refl, of n] True "1.prems" len
      by (simp add: u8'_def)
    have kj: "k < length u8" using True "1.prems" by simp
    show ?thesis
    proof (cases "k + 1 \<le> n \<and> n \<le> j - 1")
      case mid: True
      then have idx: "j - 1 + (k + 1) - n = j + k - n" "j + k - n \<noteq> k" "j + k - n \<noteq> j"
        "k \<le> n \<and> n \<le> j"
        using True by arith+
      have "flip_inner j k u8 ! n = u8' ! (j - 1 + (k + 1) - n)"
        unfolding step IH by (rule if_P [OF mid])
      also have "\<dots> = u8' ! (j + k - n)"
        by (simp only: idx(1))
      also have "\<dots> = u8 ! (j + k - n)"
        using idx(2,3) by (simp add: u8'_def)
      finally show ?thesis using idx(4) by auto
    next
      case nmid: False
      have eq: "flip_inner j k u8 ! n = u8' ! n"
        unfolding step IH by (rule if_not_P [OF nmid])
      show ?thesis
      proof (cases "n = k")
        case True
        then have "u8' ! n = u8 ! j"
          using \<open>j > k\<close> kj "1.prems" by (simp add: u8'_def)
        with eq True \<open>j > k\<close> show ?thesis by auto
      next
        case nk: False
        show ?thesis
        proof (cases "n = j")
          case True
          then have "u8' ! n = u8 ! k"
            using "1.prems" by (simp add: u8'_def)
          with eq True \<open>j > k\<close> show ?thesis by auto
        next
          case False
          with nk nmid have out: "\<not> (k \<le> n \<and> n \<le> j)" by arith
          have "u8' ! n = u8 ! n" using False nk by (simp add: u8'_def)
          with eq out show ?thesis by auto
        qed
      qed
    qed
  qed
qed


lemma flip_outer_length [simp]: "length (flip_outer T blen i u8) = length u8"
  by (induction T blen i u8 rule: flip_outer.induct)
     (subst flip_outer.simps, simp add: Let_def)

lemma flipIndex_block:
  assumes "0 < b"
  shows "flipIndex b n div b = n div b" and "flipIndex b n mod b = b - 1 - n mod b"
proof -
  have r: "b - 1 - n mod b < b" using assms by arith
  show "flipIndex b n div b = n div b"
    unfolding flipIndex_def using r assms by simp
  show "flipIndex b n mod b = b - 1 - n mod b"
    unfolding flipIndex_def using r by simp
qed

lemma flipIndex_invol: "0 < b \<Longrightarrow> flipIndex b (flipIndex b n) = n"
proof -
  assume b: "0 < b"
  have "n mod b < b" using b by simp
  then have "b - 1 - (b - 1 - n mod b) = n mod b" by arith
  then show ?thesis
    unfolding flipIndex_def [of b "flipIndex b n"] flipIndex_block [OF b] by simp
qed

lemma flipIndex_bounds:
  assumes "0 < b" "b dvd lo" "b dvd hi" "lo \<le> n" "n < hi"
  shows "lo \<le> flipIndex b n \<and> flipIndex b n < hi"
proof -
  obtain p where p: "lo = b * p" using assms(2) by (auto elim: dvdE)
  obtain q where q: "hi = b * q" using assms(3) by (auto elim: dvdE)
  have "p \<le> n div b" using assms(1,4) p
    by (metis div_le_mono nonzero_mult_div_cancel_left less_numeral_extra(3))
  then have "b * p \<le> n div b * b" by (simp add: mult.commute)
  then have lo: "lo \<le> flipIndex b n" unfolding flipIndex_def p by (rule trans_le_add1)
  have "n div b < q" using assms(1,5) q
    by (simp add: less_mult_imp_div_less mult.commute)
  then have "n div b + 1 \<le> q" by simp
  then have "(n div b + 1) * b \<le> q * b" by (rule mult_le_mono1)
  moreover have "flipIndex b n < (n div b + 1) * b"
    unfolding flipIndex_def using assms(1) by simp
  ultimately show ?thesis using lo q by (simp add: mult.commute)
qed


lemma dvd_next_block:
  assumes "(b::nat) dvd i" "b dvd blen" "i < blen"
  shows "i + b \<le> blen"
proof -
  have "b dvd blen - i" using assms(1,2) by (rule dvd_diff_nat [rotated])
  moreover have "0 < blen - i" using assms(3) by simp
  ultimately have "b \<le> blen - i" by (rule dvd_imp_le)
  then show ?thesis using assms(3) by arith
qed

lemma flip_outer_nth:
  "blen \<le> length u8 \<Longrightarrow> BYTES_PER_ELEMENT T dvd blen \<Longrightarrow> BYTES_PER_ELEMENT T dvd i \<Longrightarrow>
   n < length u8 \<Longrightarrow>
   flip_outer T blen i u8 ! n =
     (if i \<le> n \<and> n < blen then u8 ! flipIndex (BYTES_PER_ELEMENT T) n else u8 ! n)"
proof (induction T blen i u8 rule: flip_outer.induct)
  case (1 T blen i u8)
  define b where "b = BYTES_PER_ELEMENT T"
  have b: "0 < b" unfolding b_def by (rule BYTES_PER_ELEMENT_pos)
  show ?case
  proof (cases "i < blen")
    case False
    then have "flip_outer T blen i u8 = u8" by (subst flip_outer.simps) (simp add: Let_def)
    with False show ?thesis by auto
  next
    case True
    have nb: "i + b \<le> blen"
      using "1.prems"(3,2) True unfolding b_def by (rule dvd_next_block)
    define u8' where "u8' = flip_inner (i + b - 1) i u8"
    have len: "length u8' = length u8" by (simp add: u8'_def)
    have step: "flip_outer T blen i u8 = flip_outer T blen (i + b) u8'"
      using True by (subst flip_outer.simps) (simp add: Let_def u8'_def b_def)
    have j: "i + b - 1 < length u8" using nb b "1.prems"(1) by arith
    have inner: "\<And>m. m < length u8 \<Longrightarrow>
        u8' ! m = (if i \<le> m \<and> m \<le> i + b - 1 then u8 ! (i + b - 1 + i - m) else u8 ! m)"
      unfolding u8'_def using j by (rule flip_inner_nth)
    have IH: "flip_outer T blen (i + b) u8' ! n =
        (if i + b \<le> n \<and> n < blen then u8' ! flipIndex b n else u8' ! n)"
      using "1.IH" [OF b_def True] "1.prems" len
      by (simp add: b_def u8'_def)
    show ?thesis
    proof (cases "i + b \<le> n \<and> n < blen")
      case hi: True
      have d1: "b dvd i + b" using "1.prems"(3) by (simp add: b_def)
      have d2: "b dvd blen" using "1.prems"(2) by (simp add: b_def)
      have fb: "i + b \<le> flipIndex b n \<and> flipIndex b n < blen"
        using b d1 d2 hi by (intro flipIndex_bounds) auto
      then have "flipIndex b n < length u8" using "1.prems"(1) by simp
      then have "u8' ! flipIndex b n = u8 ! flipIndex b n"
        using inner [of "flipIndex b n"] fb b by auto
      moreover have "flip_outer T blen i u8 ! n = u8' ! flipIndex b n"
        unfolding step IH by (rule if_P [OF hi])
      ultimately show ?thesis using hi by (auto simp: b_def)
    next
      case nhi: False
      have eq: "flip_outer T blen i u8 ! n = u8' ! n"
        unfolding step IH by (rule if_not_P [OF nhi])
      show ?thesis
      proof (cases "i \<le> n \<and> n < i + b")
        case blk: True
        from "1.prems"(3) obtain q0 where "i = b * q0" unfolding b_def by (rule dvdE)
        then have q: "i = q0 * b" by (simp add: mult.commute)
        obtain r where r: "n = i + r" "r < b" using blk by (metis le_Suc_ex nat_add_left_cancel_less)
        have "flipIndex b n = i + (b - 1 - r)"
          unfolding flipIndex_def r(1) q using r(2) b by simp
        moreover have "u8' ! n = u8 ! (i + b - 1 + i - n)"
          using inner [of n] "1.prems"(4) blk by auto
        moreover have "i + b - 1 + i - n = i + (b - 1 - r)" using r b by arith
        moreover have "i \<le> n \<and> n < blen" using blk nb by arith
        ultimately show ?thesis using eq by (auto simp: b_def)
      next
        case nblk: False
        with nhi nb have out: "\<not> (i \<le> n \<and> n < blen)" by arith
        from nblk have "\<not> (i \<le> n \<and> n \<le> i + b - 1)" using b by arith
        then have "u8' ! n = u8 ! n" using inner [of n] "1.prems"(4) by auto
        with eq out show ?thesis by auto
      qed
    qed
  qed
qed


lemma flipArrayEndianness_length:
  "byteOffset + byteLength \<le> length buffer \<Longrightarrow>
   length (flipArrayEndianness T byteOffset byteLength buffer) = length buffer"
  by (simp add: flipArrayEndianness_def Let_def)

lemma flipArrayEndianness_nth:
  assumes "byteOffset + byteLength \<le> length buffer"
    and "BYTES_PER_ELEMENT T dvd byteLength"
    and "n < length buffer"
  shows "flipArrayEndianness T byteOffset byteLength buffer ! n =
     (if byteOffset \<le> n \<and> n < byteOffset + byteLength
      then buffer ! (byteOffset + flipIndex (BYTES_PER_ELEMENT T) (n - byteOffset))
      else buffer ! n)"
proof -
  define u8 where "u8 = take byteLength (drop byteOffset buffer)"
  define b where "b = BYTES_PER_ELEMENT T"
  have b: "0 < b" unfolding b_def by (rule BYTES_PER_ELEMENT_pos)
  have lu: "length u8 = byteLength" using assms(1) by (simp add: u8_def)
  have res: "flipArrayEndianness T byteOffset byteLength buffer =
      take byteOffset buffer @ flip_outer T byteLength 0 u8 @ drop (byteOffset + byteLength) buffer"
    by (simp add: flipArrayEndianness_def Let_def u8_def)
  have lt: "length (take byteOffset buffer) = byteOffset" using assms(1) by simp
  consider (before) "n < byteOffset" | (inside) "byteOffset \<le> n" "n < byteOffset + byteLength"
    | (after) "byteOffset + byteLength \<le> n" by arith
  then show ?thesis
  proof cases
    case before
    then show ?thesis unfolding res using lt by (simp add: nth_append)
  next
    case inside
    define m where "m = n - byteOffset"
    have m: "m < byteLength" "n = byteOffset + m" using inside by (simp_all add: m_def)
    have fm: "flipIndex b m < byteLength"
      using flipIndex_bounds [of b 0 byteLength m] b assms(2) m(1) by (simp add: b_def)
    have "flipArrayEndianness T byteOffset byteLength buffer ! n = flip_outer T byteLength 0 u8 ! m"
      unfolding res using lt m lu by (simp add: nth_append)
    also have "\<dots> = u8 ! flipIndex b m"
      using flip_outer_nth [of byteLength u8 T 0 m] lu assms(2) m(1) by (simp add: b_def)
    also have "\<dots> = buffer ! (byteOffset + flipIndex b m)"
      unfolding u8_def using fm assms(1) by (simp add: nth_drop)
    finally show ?thesis using inside by (simp add: m_def b_def)
  next
    case after
    have na: "\<not> n < byteOffset" "\<not> n - byteOffset < byteLength" using after by arith+
    have "flipArrayEndianness T byteOffset byteLength buffer ! n =
        drop (byteOffset + byteLength) buffer ! (n - byteOffset - byteLength)"
      unfolding res nth_append lt flip_outer_length lu using na by (simp only: if_False)
    also have "\<dots> = buffer ! n" using after assms(3) by simp
    finally show ?thesis using after by simp
  qed
qed

text \<open>
  Claim C10. \<open>flipArrayEndianness\<close> is an involution: for every typed array (a view of
  \<open>byteLength\<close> bytes at \<open>byteOffset\<close> inside its buffer, \<open>byteLength\<close> a multiple of the
  element size), applying it twice restores the bytes; one application keeps the length,
  moves byte \<open>r\<close> of every element \<open>e\<close> to byte \<open>BYTES_PER_ELEMENT - 1 - r\<close> of the same
  element, and leaves the bytes outside the array alone.
\<close>

theorem flipArrayEndianness_involution:
  assumes "byteOffset + byteLength \<le> length buffer"
    and "BYTES_PER_ELEMENT T dvd byteLength"
  shows "flipArrayEndianness T byteOffset byteLength
           (flipArrayEndianness T byteOffset byteLength buffer) = buffer \<and>
         length (flipArrayEndianness T byteOffset byteLength buffer) = length buffer \<and>
         (\<forall>e r. e < byteLength div BYTES_PER_ELEMENT T \<longrightarrow> r < BYTES_PER_ELEMENT T \<longrightarrow>
            flipArrayEndianness T byteOffset byteLength buffer
              ! (byteOffset + e * BYTES_PER_ELEMENT T + r) =
            buffer ! (byteOffset + e * BYTES_PER_ELEMENT T + (BYTES_PER_ELEMENT T - 1 - r))) \<and>
         (\<forall>n. n < length buffer \<longrightarrow> (n < byteOffset \<or> byteOffset + byteLength \<le> n) \<longrightarrow>
            flipArrayEndianness T byteOffset byteLength buffer ! n = buffer ! n)"
proof -
  define b where "b = BYTES_PER_ELEMENT T"
  define F where "F = flipArrayEndianness T byteOffset byteLength"
  have b: "0 < b" unfolding b_def by (rule BYTES_PER_ELEMENT_pos)
  have len: "length (F buffer) = length buffer"
    unfolding F_def using assms(1) by (rule flipArrayEndianness_length)
  have nth: "\<And>buf n. length buf = length buffer \<Longrightarrow> n < length buffer \<Longrightarrow>
      F buf ! n = (if byteOffset \<le> n \<and> n < byteOffset + byteLength
                   then buf ! (byteOffset + flipIndex b (n - byteOffset)) else buf ! n)"
    unfolding F_def b_def using assms by (intro flipArrayEndianness_nth) simp_all
  have invol: "F (F buffer) = buffer"
  proof (rule nth_equalityI)
    show "length (F (F buffer)) = length buffer"
      using len assms(1) by (simp add: F_def flipArrayEndianness_length)
  next
    fix n assume "n < length (F (F buffer))"
    then have n: "n < length buffer" using len assms(1) by (simp add: F_def flipArrayEndianness_length)
    show "F (F buffer) ! n = buffer ! n"
    proof (cases "byteOffset \<le> n \<and> n < byteOffset + byteLength")
      case False
      then show ?thesis using nth [OF len n] nth [OF refl n] by auto
    next
      case True
      define m where "m = n - byteOffset"
      have m: "m < byteLength" using True unfolding m_def by arith
      have fm: "flipIndex b m < byteLength"
        using flipIndex_bounds [of b 0 byteLength m] b assms(2) m by (simp add: b_def)
      then have n': "byteOffset + flipIndex b m < length buffer" using assms(1) by arith
      have "F (F buffer) ! n = F buffer ! (byteOffset + flipIndex b m)"
        using nth [OF len n] True by (simp add: m_def)
      also have "\<dots> = buffer ! (byteOffset + flipIndex b (flipIndex b m))"
        using nth [OF refl n'] fm by simp
      also have "\<dots> = buffer ! n"
        using flipIndex_invol [OF b] True by (simp add: m_def)
      finally show ?thesis .
    qed
  qed
  have elem: "\<forall>e r. e < byteLength div b \<longrightarrow> r < b \<longrightarrow>
      F buffer ! (byteOffset + e * b + r) = buffer ! (byteOffset + e * b + (b - 1 - r))"
  proof (intro allI impI)
    fix e r assume e: "e < byteLength div b" and r: "r < b"
    have "(e + 1) * b \<le> byteLength div b * b" using e by (intro mult_le_mono1) simp
    also have "\<dots> \<le> byteLength" by simp
    finally have eb: "e * b + r < byteLength" using r by simp
    then have n: "byteOffset + e * b + r < length buffer" using assms(1) by arith
    have "flipIndex b (e * b + r) = e * b + (b - 1 - r)"
      unfolding flipIndex_def using r by simp
    then show "F buffer ! (byteOffset + e * b + r) = buffer ! (byteOffset + e * b + (b - 1 - r))"
      using nth [OF refl n] eb by (simp add: add.assoc)
  qed
  have out: "\<forall>n. n < length buffer \<longrightarrow> (n < byteOffset \<or> byteOffset + byteLength \<le> n) \<longrightarrow>
      F buffer ! n = buffer ! n"
    using nth [OF refl] by auto
  show ?thesis using invol len elem out unfolding F_def b_def by blast
qed

theorem flipArrayEndianness_involution_witness:
  "flipArrayEndianness Uint16 1 4 (flipArrayEndianness Uint16 1 4 [9, 1, 2, 3, 4, 7])
     = [9, 1, 2, 3, 4, 7] \<and>
   length (flipArrayEndianness Uint16 1 4 [9, 1, 2, 3, 4, 7]) = 6 \<and>
   flipArrayEndianness Uint16 1 4 [9, 1, 2, 3, 4, 7] ! 3 = 4 \<and>
   flipArrayEndianness Uint16 1 4 [9, 1, 2, 3, 4, 7] ! 5 = 7"
proof -
  have h1: "1 + 4 \<le> length [9, 1, 2, 3, 4, 7 :: byte]" by simp
  have h2: "BYTES_PER_ELEMENT Uint16 dvd 4" by simp
  note t = flipArrayEndianness_involution [OF h1 h2]
  have e: "flipArrayEndianness Uint16 1 4 [9, 1, 2, 3, 4, 7] ! (1 + 1 * BYTES_PER_ELEMENT Uint16 + 0)
      = [9, 1, 2, 3, 4, 7 :: byte] ! (1 + 1 * BYTES_PER_ELEMENT Uint16 + (BYTES_PER_ELEMENT Uint16 - 1 - 0))"
    by (rule t [THEN conjunct2, THEN conjunct2, THEN conjunct1, rule_format]) simp_all
  have o: "flipArrayEndianness Uint16 1 4 [9, 1, 2, 3, 4, 7] ! 5 = [9, 1, 2, 3, 4, 7 :: byte] ! 5"
    by (rule t [THEN conjunct2, THEN conjunct2, THEN conjunct2, rule_format]) simp_all
  have e': "flipArrayEndianness Uint16 1 4 [9, 1, 2, 3, 4, 7] ! 3 = (4 :: byte)"
    using e by (simp add: numeral_3_eq_3)
  have o': "flipArrayEndianness Uint16 1 4 [9, 1, 2, 3, 4, 7] ! 5 = (7 :: byte)"
    using o by simp
  from t [THEN conjunct1] t [THEN conjunct2, THEN conjunct1] e' o' show ?thesis by simp
qed

section \<open>Results and evaluation\<close>

lemma andThen_Return_iff:
  "andThen m f = Return y \<longleftrightarrow> (\<exists>x. m = Return x \<and> f x = Return y)"
  by (cases m) auto

lemma andThen_weak_cong: "m = m' \<Longrightarrow> andThen m f = andThen m' f"
  by simp

text \<open>
  The definitions that the simplifier unfolds to run the functions on the concrete inputs
  below; with \<open>andThen_weak_cong\<close> it runs a step only when the one before has a result.
\<close>

lemmas eval_simps =
  js_def substr_def isWhiteSpace_def trim_def fromCharCode_u200B_def cleanString_def
  getGroupElementKey_def splitGroupElementKey_def isLineTerminator_def rx_of_def
  isJpegBaselineTransferSyntax_def isJpegLosslessTransferSyntax_def
  isJpegNonSupportedTransferSyntax_def isJpeglsTransferSyntax_def isJpeg2000TransferSyntax_def
  bytes_nat_def DataReader_def dataViewGet_def readUint16_def readUint32_def readUint8Array_def
  readTypedArray_def readUint16Array_def readInt16Array_def readUint32Array_def
  readInt32Array_def readFloat32Array_def readFloat64Array_def hexDigit_def toUpperCase_def
  readHex_def readString_def is32bitVLVR_def isTagWithVR_def readTag_def readVR_def readVL_def
  readHeader_def isBitsAllocated8_def pad4_def readArrayValue_def readItemDataElement_on_def
  readPixelItemDataElement_on_def readValue_def readItemDataElement_def
  readPixelItemDataElement_def parseInt_value0_def parse_syntax_def parse_transferSyntax_def
  value_length_def numberToUint16_def toUint16s_def parse_pixelBuffer_def parse_meta_def
  parse_dataSet_def parse_def getFromKey_def getFromGroupElement_def env0_def ascii_def
  pixels_def dicomFile_def DicomParser_def getDataElementPrefixByteSize_def
  char_of_def bit_Suc_0_iff Let_def toString16.simps upt_rec

section \<open>cleanString\<close>

lemma cleanString_eq:
  "cleanString s = (if trim s \<noteq> [] \<and> last (trim s) = 0 then butlast (trim s) else trim s)"
proof (cases "s = []")
  case True
  then show ?thesis by (simp add: cleanString_def trim_def)
next
  case False
  then show ?thesis
    by (simp add: cleanString_def fromCharCode_u200B_def Let_def butlast_conv_take)
qed

text \<open>
  Claim C6 says that \<open>cleanString\<close> removes a final zero-width space (U+200B, code unit
  8203) after trimming. The code compares the last character with
  \<open>String.fromCharCode("u200B")\<close>, which is the character with code 0: the string
  of the code units 97 and 8203 comes back unchanged, and it is a final NUL character that is removed (as in
  the transfer syntax UID padded with NUL to an even length).
\<close>

theorem cleanString_zero_width_space_kept:
  "cleanString [97, 8203] = [97, 8203] \<and> cleanString [97, 0] = [97] \<and>
   cleanString (js ''1.2.840.10008.1.2.1'' @ [0]) = js ''1.2.840.10008.1.2.1''"
  by (simp add: eval_simps)

section \<open>Keys\<close>

text \<open>
  Claim C9 says that looking a present key up equals looking up the group and element that
  \<open>splitGroupElementKey\<close> returns for it. \<open>splitGroupElementKey\<close> returns the four hexadecimal
  digits of each (\<open>"0010"\<close>), \<open>getGroupElementKey\<close> expects them with the prefix \<open>"0x"\<close> and
  drops the first two characters: for the key \<open>x00100010\<close> the lookup by group and element asks
  for the key \<open>x1010\<close> and returns null.
\<close>

theorem getFromGroupElement_of_split_key:
  "getFromKey env0 []
     [(''x00100010'', DataElement (Tag ''0x0010'' ''0x0010'' ''x00100010'' 4) ''PN'' (VL 8)
         (Array [Str ''DOE^JOHN'']) 16)]
     ''x00100010'' False = Component (Str ''DOE^JOHN'') \<and>
   splitGroupElementKey ''x00100010'' = (''0010'', ''0010'') \<and>
   getGroupElementKey ''0010'' ''0010'' = ''x1010'' \<and>
   getFromGroupElement env0 []
     [(''x00100010'', DataElement (Tag ''0x0010'' ''0x0010'' ''x00100010'' 4) ''PN'' (VL 8)
         (Array [Str ''DOE^JOHN'']) 16)]
     (fst (splitGroupElementKey ''x00100010'')) (snd (splitGroupElementKey ''x00100010''))
     = Null"
  by (simp add: eval_simps)

text \<open>
  With the prefix put back the two lookups agree, for every key of nine characters (as all
  keys that \<open>readTag\<close> builds are).
\<close>

lemma getGroupElementKey_of_split_prefixed:
  assumes "length key = 9" "hd key = CHR ''x''"
  shows "getGroupElementKey (''0x'' @ fst (splitGroupElementKey key))
           (''0x'' @ snd (splitGroupElementKey key)) = key"
proof -
  obtain c0 c1 c2 c3 c4 c5 c6 c7 c8 where k: "key = [c0, c1, c2, c3, c4, c5, c6, c7, c8]"
    using assms(1) by (auto simp: length_Suc_conv eval_nat_numeral)
  with assms(2) show ?thesis
    by (simp add: getGroupElementKey_def splitGroupElementKey_def substr_def)
qed

section \<open>Transfer syntaxes\<close>








section \<open>The magic word\<close>

lemma readString_eq:
  "readString rd buffer byteOffset nChars =
     (if byteOffset + nChars \<le> length buffer
      then Return (map (\<lambda>b. char_of (unat b)) (take nChars (drop byteOffset buffer)))
      else Throw RangeError)"
  by (simp add: readString_def readUint8Array_def)

text \<open>
  Claim C8, as the code has it. In a buffer that has the four bytes at offset 128 (132 bytes
  or more), when these bytes do not read as \<open>DICM\<close> \<open>parse\<close> throws the error of line 915
  whatever the fuel, also with none, so that no data element is read; when they do, \<open>parse\<close>
  is the reading of the meta elements from offset 132 followed by the data set, and the first
  thing read is the data element at offset 132, in explicit VR little endian (an error there
  is the error of \<open>parse\<close>). In a buffer of fewer than 132 bytes the reading of the magic word
  at line 911 throws a RangeError, whatever the fuel, and no data element is read either.
\<close>

theorem parse_magic_word:
  "(length buffer < 132 \<longrightarrow> parse n env this buffer = Throw RangeError) \<and>
   (132 \<le> length buffer \<and>
    map (\<lambda>b. char_of (unat b)) (take 4 (drop 128 buffer)) \<noteq> ''DICM'' \<longrightarrow>
      parse n env this buffer =
        Throw (Error (js ''Not a valid DICOM file (no magic DICM word found)''))) \<and>
   (132 \<le> length buffer \<and>
    map (\<lambda>b. char_of (unat b)) (take 4 (drop 128 buffer)) = ''DICM'' \<longrightarrow>
      parse n env this buffer =
        andThen (parse_meta n env (dicomElements this) buffer 132)
          (\<lambda>(els, offset, buffer).
             parse_dataSet n env els (pixelBuffer this) buffer offset) \<and>
      (\<forall>e. readDataElement n env (dicomElements this) (DataReader env True) buffer 132
             False = Throw e \<longrightarrow> parse n env this buffer = Throw e))"
  by (simp add: parse_def readString_eq parse_meta_def Let_def)

theorem parse_magic_word_witness:
  "parse (Suc 0) env0 DicomParser (replicate 128 0 @ ascii ''DIC'') = Throw RangeError \<and>
   parse 0 env0 DicomParser (replicate 128 0 @ ascii ''XXXX'') =
     Throw (Error (js ''Not a valid DICOM file (no magic DICM word found)'')) \<and>
   parse (Suc 0) env0 DicomParser (replicate 128 0 @ ascii ''DICM'') = Throw RangeError"
proof -
  have s: "length (replicate 128 (0 :: byte) @ ascii ''DIC'') < 132"
    by (simp add: ascii_def)
  have l: "132 \<le> length (replicate 128 (0 :: byte) @ ascii ''XXXX'')"
    "132 \<le> length (replicate 128 (0 :: byte) @ ascii ''DICM'')"
    by (simp_all add: ascii_def)
  have m: "map (\<lambda>b. char_of (unat b)) (take 4 (drop 128 (replicate 128 (0 :: byte) @ ascii ''XXXX'')))
      \<noteq> ''DICM''"
    "map (\<lambda>b. char_of (unat b)) (take 4 (drop 128 (replicate 128 (0 :: byte) @ ascii ''DICM'')))
      = ''DICM''"
    by (simp_all add: ascii_def char_of_def bit_Suc_0_iff)
  have r: "readDataElement (Suc 0) env0 (dicomElements DicomParser) (DataReader env0 True)
      (replicate 128 0 @ ascii ''DICM'') 132 False = Throw RangeError"
    by (simp add: eval_simps cong: andThen_weak_cong)
  from parse_magic_word [of "replicate 128 0 @ ascii ''DIC''" "Suc 0" env0 DicomParser,
      THEN conjunct1, rule_format, OF s]
    parse_magic_word [of "replicate 128 0 @ ascii ''XXXX''" 0 env0 DicomParser,
      THEN conjunct2, THEN conjunct1, rule_format, OF conjI [OF l(1) m(1)]]
    parse_magic_word [of "replicate 128 0 @ ascii ''DICM''" "Suc 0" env0 DicomParser,
      THEN conjunct2, THEN conjunct2, rule_format, OF conjI [OF l(2) m(2)],
      THEN conjunct2, rule_format, OF r]
  show ?thesis by (intro conjI)
qed

text \<open>
  Claim C8 as stated fails for a buffer that ends before offset 132: the buffer of 128 zero
  bytes followed by \<open>DIC\<close> has no \<open>DICM\<close> at offset 128, and \<open>parse\<close> throws a RangeError,
  which is not the error of line 915.
\<close>

theorem parse_short_buffer:
  "parse (Suc 0) env0 DicomParser (replicate 128 0 @ ascii ''DIC'') = Throw RangeError \<and>
   Throw RangeError \<noteq>
     (Throw (Error (js ''Not a valid DICOM file (no magic DICM word found)''))
        :: (parser \<times> arrayBuffer) outcome)"
  by (simp add: parse_def readString_eq ascii_def)

section \<open>The prefix of a data element\<close>

lemma dataViewGet_Return:
  "dataViewGet buffer n byteOffset le = Return v \<Longrightarrow> byteOffset + n \<le> length buffer"
  by (simp add: dataViewGet_def split: if_splits)

lemma readHex_Return:
  "readHex rd buffer byteOffset = Return s \<Longrightarrow> byteOffset + 2 \<le> length buffer"
  by (auto simp: readHex_def readUint16_def andThen_Return_iff dest: dataViewGet_Return)

lemma readTag_Return:
  assumes "readTag rd buffer offset = Return t"
  shows "tag_endOffset t = offset + 4 \<and> offset + 4 \<le> length buffer \<and>
         tag_name t = getGroupElementKey (tag_group t) (tag_element t)"
proof -
  from assms obtain g e where g: "readHex rd buffer offset = Return g"
    and e: "readHex rd buffer (offset + 2) = Return e"
    and t: "t = Tag g e (getGroupElementKey g e) (offset + 2 + 2)"
    by (auto simp: readTag_def andThen_Return_iff)
  from readHex_Return [OF e] t show ?thesis by simp
qed

lemma readVR_Return:
  assumes "readVR env rd buffer t offset implicit = Return (v, is32, offset')"
  shows "(if isTagWithVR (tag_group t) (tag_element t) \<and> \<not> implicit
          then is32 = is32bitVLVR v \<and> offset' = offset + (if is32 then 4 else 2)
          else is32 \<and> offset' = offset)"
  using assms
  by (auto simp: readVR_def readString_def readUint8Array_def andThen_Return_iff Let_def
      split: if_splits)

lemma readVL_Return:
  assumes "readVL rd buffer is32 offset = Return (l, k, offset')"
  shows "offset' = offset + (if is32 then 4 else 2) \<and> offset' \<le> length buffer \<and>
         k = effectiveVL l"
  using assms
  by (auto simp: readVL_def readUint32_def readUint16_def andThen_Return_iff effectiveVL_def
      split: if_splits dest: dataViewGet_Return)

lemma readHeader_Return:
  assumes "readHeader env rd buffer offset implicit = Return (t, v, l, k, offset')"
  shows "tag_endOffset t = offset + 4 \<and> offset' = offset + prefixSize implicit t v \<and>
         offset' \<le> length buffer \<and> k = effectiveVL l \<and>
         tag_name t = getGroupElementKey (tag_group t) (tag_element t)"
proof -
  from assms obtain is32 o1 where t: "readTag rd buffer offset = Return t"
    and v: "readVR env rd buffer t (tag_endOffset t) implicit = Return (v, is32, o1)"
    and l: "readVL rd buffer is32 o1 = Return (l, k, offset')"
    by (auto simp: readHeader_def andThen_Return_iff)
  note T = readTag_Return [OF t] and V = readVR_Return [OF v] and L = readVL_Return [OF l]
  have "offset' = offset + prefixSize implicit t v"
  proof (cases "isTagWithVR (tag_group t) (tag_element t) \<and> \<not> implicit")
    case True
    with T V L show ?thesis
      by (auto simp: prefixSize_def getDataElementPrefixByteSize_def split: if_splits)
  next
    case False
    with T V L show ?thesis
      by (auto simp: prefixSize_def getDataElementPrefixByteSize_def split: if_splits)
  qed
  with T L show ?thesis by simp
qed

section \<open>Reading a value\<close>

lemma flipArrayEndianness_zero: "flipArrayEndianness T byteOffset 0 buffer = buffer"
  by (simp add: flipArrayEndianness_def flip_outer.simps)

lemma readTypedArray_Return:
  assumes "readTypedArray T rd buffer byteOffset size' = Return (a, buffer')"
  shows "length buffer' = length buffer \<and> ta_type a = T"
  using assms
  by (auto simp: readTypedArray_def Let_def andThen_Return_iff flipArrayEndianness_length
      split: if_splits)

lemma readTypedArray_zero:
  assumes "byteOffset \<le> length buffer"
  shows "\<exists>a. readTypedArray T rd buffer byteOffset 0 = Return (a, buffer) \<and>
             ta_type a = T \<and> ta_length a = 0 \<and> ta_elements nle buffer a = []"
proof (cases "byteOffset mod BYTES_PER_ELEMENT T = 0")
  case True
  with assms show ?thesis
    by (simp add: readTypedArray_def flipArrayEndianness_zero)
next
  case False
  then show ?thesis
    by (simp add: readTypedArray_def readArray_loop.simps)
qed

lemma readUint8Array_Return:
  "readUint8Array rd buffer byteOffset size' = Return a \<Longrightarrow>
   a = BufferView Uint8 byteOffset size' \<and> byteOffset + size' \<le> length buffer"
  by (simp add: readUint8Array_def split: if_splits)

lemmas readArray_defs =
  readUint16Array_def readInt16Array_def readUint32Array_def readInt32Array_def
  readFloat32Array_def readFloat64Array_def

lemma readArrayValue_Return:
  "readArrayValue (readTypedArray T rd buffer byteOffset size') offset' = Return (d, o', buffer')
   \<Longrightarrow> o' = offset' \<and> length buffer' = length buffer"
  by (auto simp: readArrayValue_def andThen_Return_iff dest: readTypedArray_Return)

text \<open>
  The branches of the value that read no item: the new offset is the old one plus the value
  length, and the buffer keeps its length.
\<close>

lemma readValue_leaf:
  assumes "readValue k rde env this rd buffer t v l n offset = Return (d, offset', buffer')"
    and "\<not> (tag_name t = ''x7FE00010'' \<and> l = UndefinedLength)"
    and "v \<noteq> ''SQ''"
  shows "offset' = offset + n \<and> length buffer' = length buffer"
proof -
  from assms(2) have np: "(tag_name t = ''x7FE00010'' \<and> l = UndefinedLength) = False"
    by simp
  consider (u8) "v \<in> set [''OW'', ''OF'', ''ox'', ''OB'', ''UN'']"
    | (ta) "v \<in> set [''US'', ''UL'', ''SS'', ''SL'', ''FL'', ''FD'']"
    | (at) "v = ''AT''" | (str) "isStringVR v"
    using assms(3) by (auto simp: isStringVR_def)
  then show ?thesis
  proof cases
    case u8
    with assms(1) show ?thesis
      unfolding readValue_def np readArray_defs
      by (auto simp: andThen_Return_iff split: if_splits
          dest!: readUint8Array_Return readArrayValue_Return)
  next
    case ta
    with assms(1) show ?thesis
      unfolding readValue_def np readArray_defs
      by (auto simp: andThen_Return_iff split: if_splits dest!: readArrayValue_Return)
  next
    case at
    with assms(1) show ?thesis
      unfolding readValue_def np readArray_defs
      by (auto simp: andThen_Return_iff split: if_splits dest!: readTypedArray_Return)
  next
    case str
    then have "readValue k rde env this rd buffer t v l n offset =
        andThen (readString rd buffer offset n)
          (\<lambda>data'. Return (Array (map Str (split_backslash data')), offset + n, buffer))"
      unfolding readValue_def np by (simp add: isStringVR_def)
    with assms(1) show ?thesis
      by (auto simp: andThen_Return_iff)
  qed
qed

section \<open>Every read advances\<close>

lemma advancesD:
  "advances rde \<Longrightarrow> rde buffer offset = Return (e, buffer') \<Longrightarrow>
   offset + 8 + effectiveVL (vl e) \<le> endOffset e \<and> length buffer' = length buffer"
  by (simp add: advances_def)

lemma item_advancesD:
  "item_advances rid \<Longrightarrow> rid buffer offset = Return (r, buffer') \<Longrightarrow>
   offset + 8 \<le> item_endOffset r \<and> length buffer' = length buffer"
  by (simp add: item_advances_def)

lemma readItem_explicit_Return:
  assumes "advances rde"
  shows "readItem_explicit k rde buffer offset end' acc = Return (r, buffer') \<Longrightarrow>
         offset \<le> item_endOffset r \<and> end' \<le> item_endOffset r \<and>
         length buffer' = length buffer \<and> \<not> isSeqDelim r"
proof (induction k arbitrary: buffer offset acc)
  case 0
  then show ?case by simp
next
  case (Suc k)
  show ?case
  proof (cases "offset < end'")
    case False
    with Suc.prems show ?thesis by auto
  next
    case True
    with Suc.prems obtain item b1 where i: "rde buffer offset = Return (item, b1)"
      and rec: "readItem_explicit k rde b1 (endOffset item) end'
                  (AList.update (tag_name (tag item)) item acc) = Return (r, buffer')"
      by (auto simp: andThen_Return_iff)
    from advancesD [OF assms i] Suc.IH [OF rec] show ?thesis by simp
  qed
qed

lemma readItem_undefined_Return:
  assumes "advances rde"
  shows "readItem_undefined k rde buffer offset acc = Return (r, buffer') \<Longrightarrow>
         offset + 8 \<le> item_endOffset r \<and> length buffer' = length buffer \<and> \<not> isSeqDelim r"
proof (induction k arbitrary: buffer offset acc)
  case 0
  then show ?case by simp
next
  case (Suc k)
  from Suc.prems obtain item b1 where i: "rde buffer offset = Return (item, b1)"
    and rec: "(if \<not> (tag_name (tag item) = ''xFFFEE00D'') then
                 readItem_undefined k rde b1 (endOffset item)
                   (AList.update (tag_name (tag item)) item acc)
               else Return (ItemResult acc (endOffset item) False, b1)) = Return (r, buffer')"
    by (auto simp: andThen_Return_iff)
  show ?case
  proof (cases "tag_name (tag item) = ''xFFFEE00D''")
    case True
    with rec advancesD [OF assms i] show ?thesis by auto
  next
    case False
    with rec have "readItem_undefined k rde b1 (endOffset item)
        (AList.update (tag_name (tag item)) item acc) = Return (r, buffer')" by simp
    from Suc.IH [OF this] advancesD [OF assms i] show ?thesis by simp
  qed
qed

lemma readItemDataElement_on_Return:
  assumes "advances rde"
    and "readItemDataElement_on k rde buffer offset = Return (r, buffer')"
  shows "offset + 8 \<le> item_endOffset r \<and> length buffer' = length buffer"
proof -
  from assms(2) obtain item b1 where i: "rde buffer offset = Return (item, b1)"
    and rest: "(if tag_name (tag item) = ''xFFFEE0DD'' then
                  Return (ItemResult [] (endOffset item) True, b1)
                else
                  (case vl item of
                     VL itemVl \<Rightarrow>
                       (if itemVl \<noteq> 0 then
                          readItem_explicit k rde b1 (endOffset item - itemVl) (endOffset item)
                            (AList.update (tag_name (tag item)) item [])
                        else Return (ItemResult (AList.update (tag_name (tag item)) item [])
                                       (endOffset item) False, b1))
                   | UndefinedLength \<Rightarrow>
                       readItem_undefined k rde b1 (endOffset item)
                         (AList.update (tag_name (tag item)) item []))) = Return (r, buffer')"
    unfolding readItemDataElement_on_def Let_def by (auto simp: andThen_Return_iff)
  note a = advancesD [OF assms(1) i]
  show ?thesis
  proof (cases "tag_name (tag item) = ''xFFFEE0DD''")
    case True
    with rest a show ?thesis by auto
  next
    case False
    show ?thesis
    proof (cases "vl item")
      case UndefinedLength
      with False rest have "readItem_undefined k rde b1 (endOffset item)
          (AList.update (tag_name (tag item)) item []) = Return (r, buffer')" by simp
      from readItem_undefined_Return [OF assms(1) this] a show ?thesis by simp
    next
      case (VL itemVl)
      show ?thesis
      proof (cases "itemVl = 0")
        case True
        with VL False rest a show ?thesis by auto
      next
        case nz: False
        with VL False rest have "readItem_explicit k rde b1 (endOffset item - itemVl)
            (endOffset item) (AList.update (tag_name (tag item)) item []) = Return (r, buffer')"
          by simp
        from readItem_explicit_Return [OF assms(1) this] a show ?thesis by simp
      qed
    qed
  qed
qed

lemma readItemDataElement_on_advances:
  "advances rde \<Longrightarrow> item_advances (readItemDataElement_on k rde)"
  unfolding item_advances_def using readItemDataElement_on_Return by blast

lemma readPixelItem_loop_Return:
  assumes "advances rde"
  shows "readPixelItem_loop k rde buffer offset acc = Return (r, buffer') \<Longrightarrow>
         offset + 8 \<le> pix_endOffset r \<and> length buffer' = length buffer"
proof (induction k arbitrary: buffer offset acc)
  case 0
  then show ?case by simp
next
  case (Suc k)
  from Suc.prems obtain item b1 where i: "rde buffer offset = Return (item, b1)"
    and rec: "(if \<not> (tag_name (tag item) = ''xFFFEE0DD'') then
                 readPixelItem_loop k rde b1 (endOffset item) (acc @ [item])
               else Return (PixelItemResult acc (endOffset item), b1)) = Return (r, buffer')"
    by (auto simp: andThen_Return_iff)
  show ?case
  proof (cases "tag_name (tag item) = ''xFFFEE0DD''")
    case True
    with rec advancesD [OF assms i] show ?thesis by auto
  next
    case False
    with rec have "readPixelItem_loop k rde b1 (endOffset item) (acc @ [item])
        = Return (r, buffer')" by simp
    from Suc.IH [OF this] advancesD [OF assms i] show ?thesis by simp
  qed
qed

lemma readPixelItemDataElement_on_Return:
  assumes "advances rde"
    and "readPixelItemDataElement_on k rde buffer offset = Return (r, buffer')"
  shows "offset + 16 \<le> pix_endOffset r \<and> length buffer' = length buffer"
proof -
  from assms(2) obtain item b1 where i: "rde buffer offset = Return (item, b1)"
    and l: "readPixelItem_loop k rde b1 (endOffset item) [] = Return (r, buffer')"
    by (auto simp: readPixelItemDataElement_on_def andThen_Return_iff)
  from advancesD [OF assms(1) i] readPixelItem_loop_Return [OF assms(1) l]
  show ?thesis by simp
qed

lemma readSQ_explicit_Return:
  assumes "item_advances rid"
  shows "readSQ_explicit k rid buffer offset end' acc = Return (d, offset', buffer') \<Longrightarrow>
         offset \<le> offset' \<and> end' \<le> offset' \<and> length buffer' = length buffer"
proof (induction k arbitrary: buffer offset acc)
  case 0
  then show ?case by simp
next
  case (Suc k)
  show ?case
  proof (cases "offset < end'")
    case False
    with Suc.prems show ?thesis by auto
  next
    case True
    with Suc.prems obtain r b1 where i: "rid buffer offset = Return (r, b1)"
      and rec: "readSQ_explicit k rid b1 (item_endOffset r) end' (acc @ [Item (item_data r)])
                  = Return (d, offset', buffer')"
      by (auto simp: andThen_Return_iff)
    from item_advancesD [OF assms i] Suc.IH [OF rec] show ?thesis by simp
  qed
qed

lemma readSQ_undefined_Return:
  assumes "item_advances rid"
  shows "readSQ_undefined k rid buffer offset acc = Return (d, offset', buffer') \<Longrightarrow>
         offset + 8 \<le> offset' \<and> length buffer' = length buffer"
proof (induction k arbitrary: buffer offset acc)
  case 0
  then show ?case by simp
next
  case (Suc k)
  from Suc.prems obtain r b1 where i: "rid buffer offset = Return (r, b1)"
    and rec: "(if \<not> isSeqDelim r then
                 readSQ_undefined k rid b1 (item_endOffset r) (acc @ [Item (item_data r)])
               else Return (Array acc, item_endOffset r, b1)) = Return (d, offset', buffer')"
    by (auto simp: andThen_Return_iff)
  show ?case
  proof (cases "isSeqDelim r")
    case True
    with rec item_advancesD [OF assms i] show ?thesis by auto
  next
    case False
    with rec have "readSQ_undefined k rid b1 (item_endOffset r) (acc @ [Item (item_data r)])
        = Return (d, offset', buffer')" by simp
    from Suc.IH [OF this] item_advancesD [OF assms i] show ?thesis by simp
  qed
qed

text \<open>The three ways of \<open>readValue\<close>: pixel items, sequence items, or no items.\<close>

lemma readValue_pixel:
  "tag_name t = ''x7FE00010'' \<and> l = UndefinedLength \<Longrightarrow>
   readValue k rde env this rd buffer t v l n offset =
     andThen (readPixelItemDataElement_on k rde buffer offset) (\<lambda>(pixItemData, buffer).
       Return (Array (map Elem (pix_data pixItemData)), pix_endOffset pixItemData, buffer))"
  by (simp add: readValue_def)

lemma readValue_SQ:
  "\<not> (tag_name t = ''x7FE00010'' \<and> l = UndefinedLength) \<Longrightarrow>
   readValue k rde env this rd buffer t ''SQ'' l n offset =
     (if l \<noteq> UndefinedLength then
        (if n \<noteq> 0 then
           readSQ_explicit k (readItemDataElement_on k rde) buffer offset (offset + n) []
         else Return (Array [], offset, buffer))
      else readSQ_undefined k (readItemDataElement_on k rde) buffer offset [])"
  by (simp add: readValue_def)

lemma readValue_Return:
  assumes "advances rde"
    and "readValue k rde env this rd buffer t v l n offset = Return (d, offset', buffer')"
    and "n = effectiveVL l"
  shows "offset + n \<le> offset' \<and> length buffer' = length buffer \<and>
         (l = UndefinedLength \<and> (v = ''SQ'' \<or> tag_name t = ''x7FE00010'') \<longrightarrow>
            offset + 8 \<le> offset') \<and>
         (n = 0 \<and> l \<noteq> UndefinedLength \<longrightarrow> offset' = offset) \<and>
         (\<not> (tag_name t = ''x7FE00010'' \<and> l = UndefinedLength) \<and> v \<noteq> ''SQ'' \<longrightarrow>
            offset' = offset + n)"
proof (cases "tag_name t = ''x7FE00010'' \<and> l = UndefinedLength")
  case True
  with assms(2) obtain r where
    p: "readPixelItemDataElement_on k rde buffer offset = Return (r, buffer')"
    and o: "offset' = pix_endOffset r"
    unfolding readValue_pixel [OF True] by (auto simp: andThen_Return_iff)
  from readPixelItemDataElement_on_Return [OF assms(1) p] o True
  have "offset + 16 \<le> offset'" "length buffer' = length buffer" by simp_all
  moreover from assms(3) True have "n = 0" by (simp add: effectiveVL_def)
  ultimately show ?thesis using True by auto
next
  case np: False
  show ?thesis
  proof (cases "v = ''SQ''")
    case False
    from readValue_leaf [OF assms(2) np False] np False show ?thesis by auto
  next
    case True
    note ia = readItemDataElement_on_advances [OF assms(1), of k]
    note sq = assms(2) [unfolded True readValue_SQ [OF np]]
    show ?thesis
    proof (cases "l = UndefinedLength")
      case True
      with sq have "readSQ_undefined k (readItemDataElement_on k rde) buffer offset []
          = Return (d, offset', buffer')" by simp
      from readSQ_undefined_Return [OF ia this]
      have "offset + 8 \<le> offset'" "length buffer' = length buffer" by simp_all
      moreover from assms(3) True have "n = 0" by (simp add: effectiveVL_def)
      ultimately show ?thesis
        using True \<open>v = ''SQ''\<close> by auto
    next
      case nu: False
      show ?thesis
      proof (cases "n = 0")
        case True
        with sq nu show ?thesis by auto
      next
        case False
        with sq nu have "readSQ_explicit k (readItemDataElement_on k rde) buffer offset
            (offset + n) [] = Return (d, offset', buffer')" by simp
        from readSQ_explicit_Return [OF ia this] nu False \<open>v = ''SQ''\<close> show ?thesis by auto
      qed
    qed
  qed
qed

section \<open>readDataElement\<close>

lemma readDataElement_Suc:
  "readDataElement (Suc n) env this rd buffer offset implicit =
     andThen (readHeader env rd buffer offset implicit) (\<lambda>(t, v, l, k, offset).
     andThen (readValue n (\<lambda>buffer offset. readDataElement n env this rd buffer offset implicit)
                env this rd buffer t v l k offset)
       (\<lambda>(d, offset, buffer). Return (DataElement t v l d offset, buffer)))"
  by simp

lemma readDataElement_ReturnE:
  assumes "readDataElement n env this rd buffer offset implicit = Return (e, buffer')"
  obtains m k offset1 where "n = Suc m"
    and "readHeader env rd buffer offset implicit = Return (tag e, vr e, vl e, k, offset1)"
    and "readValue m (\<lambda>buffer offset. readDataElement m env this rd buffer offset implicit)
           env this rd buffer (tag e) (vr e) (vl e) k offset1
         = Return (val e, endOffset e, buffer')"
proof (cases n)
  case 0
  with assms show ?thesis by simp
next
  case (Suc m)
  from assms [unfolded Suc readDataElement_Suc]
  obtain t v l k offset1 d offset2 where
    h: "readHeader env rd buffer offset implicit = Return (t, v, l, k, offset1)"
    and r: "readValue m (\<lambda>buffer offset. readDataElement m env this rd buffer offset implicit)
           env this rd buffer t v l k offset1 = Return (d, offset2, buffer')"
    and e: "e = DataElement t v l d offset2"
    by (auto simp: andThen_Return_iff)
  from e h r Suc show ?thesis by (intro that [of m k offset1]) simp_all
qed

lemma prefixSize_ge: "8 \<le> prefixSize implicit t v"
  by (simp add: prefixSize_def getDataElementPrefixByteSize_def)

lemma readDataElement_advances:
  "advances (\<lambda>buffer offset. readDataElement n env this rd buffer offset implicit)"
proof (induction n)
  case 0
  show ?case by (simp add: advances_def)
next
  case (Suc n)
  show ?case
    unfolding advances_def
  proof (intro allI impI)
    fix buffer offset e buffer'
    assume r: "readDataElement (Suc n) env this rd buffer offset implicit = Return (e, buffer')"
    from r obtain m k offset1 where m: "Suc n = Suc m"
      and h: "readHeader env rd buffer offset implicit = Return (tag e, vr e, vl e, k, offset1)"
      and v: "readValue m
            (\<lambda>buffer offset. readDataElement m env this rd buffer offset implicit)
            env this rd buffer (tag e) (vr e) (vl e) k offset1
          = Return (val e, endOffset e, buffer')"
      by (rule readDataElement_ReturnE)
    from m have mn: "m = n" by simp
    note H = readHeader_Return [OF h]
    from H have k: "k = effectiveVL (vl e)" by simp
    note V = readValue_Return [OF Suc.IH v [unfolded mn] k]
    from H V prefixSize_ge [of implicit "tag e" "vr e"] k
    show "offset + 8 + effectiveVL (vl e) \<le> endOffset e \<and> length buffer' = length buffer"
      by simp
  qed
qed






section \<open>Elements of length zero\<close>

lemma readValue_zero:
  assumes "offset \<le> length buffer"
  shows "\<exists>d. readValue k rde env this rd buffer t v (VL 0) 0 offset = Return (d, offset, buffer) \<and>
             value_length d = (if isStringVR v then 1 else 0) \<and>
             (isStringVR v \<longrightarrow> d = Array [Str []])"
proof -
  have u8: "readUint8Array rd buffer offset 0 = Return (BufferView Uint8 offset 0)"
    using assms by (simp add: readUint8Array_def)
  have ta: "\<And>T. \<exists>a. readTypedArray T rd buffer offset 0 = Return (a, buffer) \<and> ta_length a = 0 \<and>
      ta_elements (isNativeLittleEndian env) buffer a = []"
    using readTypedArray_zero [OF assms] by blast
  have str: "readString rd buffer offset 0 = Return []"
    using assms by (simp add: readString_eq)
  consider (ow) "v \<in> set [''OW'', ''OF'', ''ox'']" | (u8) "v \<in> set [''OB'', ''UN'']"
    | (us) "v = ''US''" | (ul) "v = ''UL''" | (ss) "v = ''SS''" | (sl) "v = ''SL''"
    | (fl) "v = ''FL''" | (fd) "v = ''FD''"
    | (at) "v = ''AT''" | (sq) "v = ''SQ''" | (str) "isStringVR v"
    by (auto simp: isStringVR_def)
  then show ?thesis
  proof cases
    case ow
    from ta [of Uint16] obtain a where
      "readTypedArray Uint16 rd buffer offset 0 = Return (a, buffer)" "ta_length a = 0"
      by blast
    with ow u8 show ?thesis
      by (auto simp: readValue_def readArray_defs readArrayValue_def value_length_def
          isStringVR_def)
  next
    case u8
    with \<open>readUint8Array rd buffer offset 0 = Return (BufferView Uint8 offset 0)\<close>
    show ?thesis
      by (auto simp: readValue_def value_length_def isStringVR_def)
  next
    case us
    from ta [of Uint16] obtain a where
      "readTypedArray Uint16 rd buffer offset 0 = Return (a, buffer)" "ta_length a = 0"
      by blast
    with us show ?thesis
      by (simp add: readValue_def readArray_defs readArrayValue_def value_length_def
          isStringVR_def)
  next
    case ul
    from ta [of Uint32] obtain a where
      "readTypedArray Uint32 rd buffer offset 0 = Return (a, buffer)" "ta_length a = 0"
      by blast
    with ul show ?thesis
      by (simp add: readValue_def readArray_defs readArrayValue_def value_length_def
          isStringVR_def)
  next
    case ss
    from ta [of Int16] obtain a where
      "readTypedArray Int16 rd buffer offset 0 = Return (a, buffer)" "ta_length a = 0"
      by blast
    with ss show ?thesis
      by (simp add: readValue_def readArray_defs readArrayValue_def value_length_def
          isStringVR_def)
  next
    case sl
    from ta [of Int32] obtain a where
      "readTypedArray Int32 rd buffer offset 0 = Return (a, buffer)" "ta_length a = 0"
      by blast
    with sl show ?thesis
      by (simp add: readValue_def readArray_defs readArrayValue_def value_length_def
          isStringVR_def)
  next
    case fl
    from ta [of Float32] obtain a where
      "readTypedArray Float32 rd buffer offset 0 = Return (a, buffer)" "ta_length a = 0"
      by blast
    with fl show ?thesis
      by (simp add: readValue_def readArray_defs readArrayValue_def value_length_def
          isStringVR_def)
  next
    case fd
    from ta [of Float64] obtain a where
      "readTypedArray Float64 rd buffer offset 0 = Return (a, buffer)" "ta_length a = 0"
      by blast
    with fd show ?thesis
      by (simp add: readValue_def readArray_defs readArrayValue_def value_length_def
          isStringVR_def)
  next
    case at
    from ta [of Uint16] obtain a where
      "readTypedArray Uint16 rd buffer offset 0 = Return (a, buffer)"
      "ta_elements (isNativeLittleEndian env) buffer a = []"
      by blast
    with at show ?thesis
      by (simp add: readValue_def readArray_defs value_length_def isStringVR_def)
  next
    case sq
    then show ?thesis
      by (simp add: readValue_def value_length_def isStringVR_def)
  next
    case str
    then have "readValue k rde env this rd buffer t v (VL 0) 0 offset =
        andThen (readString rd buffer offset 0)
          (\<lambda>data'. Return (Array (map Str (split_backslash data')), offset + 0, buffer))"
      unfolding readValue_def by (simp add: isStringVR_def)
    with str \<open>readString rd buffer offset 0 = Return []\<close> show ?thesis
      by (simp add: value_length_def)
  qed
qed

text \<open>
  Claim C7, as the code has it. When the VL field of a data element is zero, decoding
  succeeds at every fuel but 0, the element ends where its prefix ends and the buffer is as
  before; the value has no component, except for the VRs that are read as strings, where it
  is the array of the one empty string (\<open>"".split("\\")\<close>).
\<close>

theorem readDataElement_zero_length:
  assumes "readHeader env reader buffer offset implicit = Return (t, v, VL 0, k, offset')"
  shows "\<exists>d. readDataElement (Suc n) env this reader buffer offset implicit =
               Return (DataElement t v (VL 0) d offset', buffer) \<and>
             value_length d = (if isStringVR v then 1 else 0) \<and>
             (isStringVR v \<longrightarrow> d = Array [Str []])"
proof -
  from readHeader_Return [OF assms] have k: "k = 0" and o: "offset' \<le> length buffer"
    by (simp_all add: effectiveVL_def)
  from readValue_zero [OF o, of n
      "\<lambda>buffer offset. readDataElement n env this reader buffer offset implicit" env this reader t v]
  obtain d where d: "readValue n
        (\<lambda>buffer offset. readDataElement n env this reader buffer offset implicit)
        env this reader buffer t v (VL 0) 0 offset' = Return (d, offset', buffer)"
    and l: "value_length d = (if isStringVR v then 1 else 0)"
    and s: "isStringVR v \<longrightarrow> d = Array [Str []]"
    by blast
  have "readDataElement (Suc n) env this reader buffer offset implicit =
      Return (DataElement t v (VL 0) d offset', buffer)"
    unfolding readDataElement_Suc assms using d k by simp
  with l s show ?thesis by blast
qed

lemma emptyName_header:
  "readHeader env0 (DataReader env0 True) emptyName 0 False =
     Return (Tag ''0x0010'' ''0x0010'' ''x00100010'' 4, ''PN'', VL 0, 0, 8)"
  by (simp add: eval_simps emptyName_def cong: andThen_weak_cong)

theorem readDataElement_zero_length_witness:
  "\<exists>d. readDataElement (Suc 0) env0 [] (DataReader env0 True) emptyName 0 False =
          Return (DataElement (Tag ''0x0010'' ''0x0010'' ''x00100010'' 4) ''PN'' (VL 0) d 8,
                  emptyName) \<and>
        value_length d = 1 \<and> d = Array [Str []]"
  using readDataElement_zero_length [OF emptyName_header, of 0 "[]"]
  by (simp add: isStringVR_def)

text \<open>
  Claim C7 as stated fails for the string VRs: the value of the element (0010,0010) PN of
  length 0 has one component, the empty string.
\<close>

theorem readDataElement_empty_string_value:
  "readDataElement (Suc 0) env0 [] (DataReader env0 True) emptyName 0 False =
     Return (DataElement (Tag ''0x0010'' ''0x0010'' ''x00100010'' 4) ''PN'' (VL 0)
               (Array [Str []]) 8, emptyName) \<and>
   value_length (Array [Str []]) = 1"
  by (simp add: eval_simps emptyName_def cong: andThen_weak_cong)

section \<open>Pixel items\<close>

lemma reads_snoc_delim:
  "rd buffer offset = Return (r, b1) \<Longrightarrow> reads rd endOf buffer offset [r] b1 (endOf r)"
  by simp

lemma reads_Cons:
  "rd buffer offset = Return (r, b1) \<Longrightarrow> reads rd endOf b1 (endOf r) rs buffer' offset' \<Longrightarrow>
   reads rd endOf buffer offset (r # rs) buffer' offset'"
  by simp

lemma readPixelItem_loop_reads:
  "readPixelItem_loop k rde buffer offset acc = Return (r, buffer') \<Longrightarrow>
   \<exists>items delim. pix_data r = acc @ items \<and>
     reads rde endOffset buffer offset (items @ [delim]) buffer' (pix_endOffset r) \<and>
     tag_name (tag delim) = ''xFFFEE0DD'' \<and>
     (\<forall>e \<in> set items. tag_name (tag e) \<noteq> ''xFFFEE0DD'') \<and>
     pix_endOffset r = endOffset delim"
proof (induction k arbitrary: buffer offset acc)
  case 0
  then show ?case by simp
next
  case (Suc k)
  from Suc.prems obtain item b1 where i: "rde buffer offset = Return (item, b1)"
    and rec: "(if \<not> (tag_name (tag item) = ''xFFFEE0DD'') then
                 readPixelItem_loop k rde b1 (endOffset item) (acc @ [item])
               else Return (PixelItemResult acc (endOffset item), b1)) = Return (r, buffer')"
    by (auto simp: andThen_Return_iff)
  show ?case
  proof (cases "tag_name (tag item) = ''xFFFEE0DD''")
    case True
    with rec have r: "r = PixelItemResult acc (endOffset item)" "buffer' = b1" by simp_all
    have "reads rde endOffset buffer offset ([] @ [item]) buffer' (pix_endOffset r)"
      using i r by simp
    with True r show ?thesis by (intro exI [of _ "[]"] exI [of _ item]) simp
  next
    case False
    with rec have "readPixelItem_loop k rde b1 (endOffset item) (acc @ [item])
        = Return (r, buffer')" by simp
    from Suc.IH [OF this] obtain items delim where
      d: "pix_data r = (acc @ [item]) @ items"
      and c: "reads rde endOffset b1 (endOffset item) (items @ [delim]) buffer' (pix_endOffset r)"
      and t: "tag_name (tag delim) = ''xFFFEE0DD''"
        "\<forall>e \<in> set items. tag_name (tag e) \<noteq> ''xFFFEE0DD''"
        "pix_endOffset r = endOffset delim"
      by blast
    have "reads rde endOffset buffer offset ((item # items) @ [delim]) buffer' (pix_endOffset r)"
      using i c by simp
    with d t False show ?thesis
      by (intro exI [of _ "item # items"] exI [of _ delim]) simp
  qed
qed

text \<open>
  Claim C1, as the code has it. \<open>readPixelItemDataElement\<close> reads a first item (the basic
  offset table), which it does not store, and then the items that follow, each at the end of
  the one before, up to the first with the tag FFFE,E0DD. Its data list is these following
  items without the delimiter, in the order read, and its end offset is the end of the
  delimiter.
\<close>

theorem readPixelItemDataElement_items:
  assumes "readPixelItemDataElement n env this reader buffer offset implicit
           = Return (r, buffer')"
  shows "\<exists>bot delim.
           reads (\<lambda>buffer offset. readDataElement n env this reader buffer offset implicit)
             endOffset buffer offset (bot # pix_data r @ [delim]) buffer' (pix_endOffset r) \<and>
           tag_name (tag delim) = ''xFFFEE0DD'' \<and>
           (\<forall>e \<in> set (pix_data r). tag_name (tag e) \<noteq> ''xFFFEE0DD'') \<and>
           pix_endOffset r = endOffset delim"
proof -
  define rde where
    "rde = (\<lambda>buffer offset. readDataElement n env this reader buffer offset implicit)"
  from assms obtain bot b1 where b: "rde buffer offset = Return (bot, b1)"
    and l: "readPixelItem_loop n rde b1 (endOffset bot) [] = Return (r, buffer')"
    by (auto simp: readPixelItemDataElement_def readPixelItemDataElement_on_def
        andThen_Return_iff rde_def)
  from readPixelItem_loop_reads [OF l] obtain items delim where
    d: "pix_data r = items"
    and c: "reads rde endOffset b1 (endOffset bot) (items @ [delim]) buffer' (pix_endOffset r)"
    and t: "tag_name (tag delim) = ''xFFFEE0DD''"
      "\<forall>e \<in> set items. tag_name (tag e) \<noteq> ''xFFFEE0DD''"
      "pix_endOffset r = endOffset delim"
    by auto
  have "reads rde endOffset buffer offset (bot # pix_data r @ [delim]) buffer' (pix_endOffset r)"
    using b c d by simp
  with t d show ?thesis unfolding rde_def by blast
qed

lemma pixels_items_read:
  "readDataElement (Suc (Suc (Suc 0))) env0 [] (DataReader env0 True) pixels 12 False
     = Return (pixels_bot, pixels)"
  "readDataElement (Suc (Suc (Suc 0))) env0 [] (DataReader env0 True) pixels 20 False
     = Return (pixels_fragment1, pixels)"
  "readDataElement (Suc (Suc (Suc 0))) env0 [] (DataReader env0 True) pixels 30 False
     = Return (pixels_fragment2, pixels)"
  "readDataElement (Suc (Suc (Suc 0))) env0 [] (DataReader env0 True) pixels 40 False
     = Return (pixels_delimiter, pixels)"
  by (simp_all add: eval_simps pixels_bot_def pixels_fragment1_def pixels_fragment2_def
      pixels_delimiter_def cong: andThen_weak_cong)

lemma pixels_read:
  "readPixelItemDataElement (Suc (Suc (Suc 0))) env0 [] (DataReader env0 True) pixels 12 False
     = Return (PixelItemResult [pixels_fragment1, pixels_fragment2] 48, pixels)"
proof -
  define rde where "rde = (\<lambda>buffer offset.
      readDataElement (Suc (Suc (Suc 0))) env0 [] (DataReader env0 True) buffer offset False)"
  have r: "rde pixels 12 = Return (pixels_bot, pixels)"
    "rde pixels 20 = Return (pixels_fragment1, pixels)"
    "rde pixels 30 = Return (pixels_fragment2, pixels)"
    "rde pixels 40 = Return (pixels_delimiter, pixels)"
    unfolding rde_def by (rule pixels_items_read)+
  have e: "endOffset pixels_bot = 20" "endOffset pixels_fragment1 = 30"
    "endOffset pixels_fragment2 = 40" "endOffset pixels_delimiter = 48"
    "tag_name (tag pixels_fragment1) = ''xFFFEE000''"
    "tag_name (tag pixels_fragment2) = ''xFFFEE000''"
    "tag_name (tag pixels_delimiter) = ''xFFFEE0DD''"
    by (simp_all add: pixels_bot_def pixels_fragment1_def pixels_fragment2_def
        pixels_delimiter_def)
  have "readPixelItemDataElement_on (Suc (Suc (Suc 0))) rde pixels 12
      = Return (PixelItemResult [pixels_fragment1, pixels_fragment2] 48, pixels)"
    by (simp add: readPixelItemDataElement_on_def r e)
  then show ?thesis
    unfolding readPixelItemDataElement_def rde_def .
qed

theorem readPixelItemDataElement_items_witness:
  "readPixelItemDataElement (Suc (Suc (Suc 0))) env0 [] (DataReader env0 True) pixels 12 False
     = Return (PixelItemResult [pixels_fragment1, pixels_fragment2] 48, pixels) \<and>
   (\<exists>bot delim.
      reads (\<lambda>buffer offset. readDataElement (Suc (Suc (Suc 0))) env0 []
                (DataReader env0 True) buffer offset False)
        endOffset pixels 12 (bot # [pixels_fragment1, pixels_fragment2] @ [delim]) pixels 48 \<and>
      tag_name (tag delim) = ''xFFFEE0DD'' \<and> 48 = endOffset delim)"
  using readPixelItemDataElement_items [OF pixels_read] pixels_read
  by (simp del: reads.simps) blast

text \<open>
  Claim C1 as stated fails: on the stream with a basic offset table item and two fragment
  items, the data list has the two fragments and not the basic offset table.
\<close>

theorem readPixelItemDataElement_without_offset_table:
  "readDataElement (Suc (Suc (Suc 0))) env0 [] (DataReader env0 True) pixels 12 False
     = Return (pixels_bot, pixels) \<and>
   readPixelItemDataElement (Suc (Suc (Suc 0))) env0 [] (DataReader env0 True) pixels 12 False
     = Return (PixelItemResult [pixels_fragment1, pixels_fragment2] 48, pixels) \<and>
   length [pixels_fragment1, pixels_fragment2] = 2 \<and>
   hd [pixels_fragment1, pixels_fragment2] \<noteq> pixels_bot"
  using pixels_items_read(1) pixels_read
  by (simp add: pixels_bot_def pixels_fragment1_def)

section \<open>Sequences of undefined length\<close>

lemma readItem_explicit_not_delim:
  "readItem_explicit k rde buffer offset end' acc = Return (r, buffer') \<Longrightarrow> \<not> isSeqDelim r"
proof (induction k arbitrary: buffer offset acc)
  case 0
  then show ?case by simp
next
  case (Suc k)
  then show ?case
    by (cases "offset < end'") (auto simp: andThen_Return_iff)
qed

lemma readItem_undefined_not_delim:
  "readItem_undefined k rde buffer offset acc = Return (r, buffer') \<Longrightarrow> \<not> isSeqDelim r"
proof (induction k arbitrary: buffer offset acc)
  case 0
  then show ?case by simp
next
  case (Suc k)
  then show ?case
    by (auto simp: andThen_Return_iff split: if_splits)
qed

lemma readItemDataElement_on_isSeqDelim:
  assumes "readItemDataElement_on k rde buffer offset = Return (r, buffer')"
  shows "isSeqDelim r =
     (\<exists>d. rde buffer offset = Return (d, buffer') \<and> tag_name (tag d) = ''xFFFEE0DD'' \<and>
          item_endOffset r = endOffset d \<and> item_data r = [])"
proof -
  from assms obtain item b1 where i: "rde buffer offset = Return (item, b1)"
    and rest: "(if tag_name (tag item) = ''xFFFEE0DD'' then
                  Return (ItemResult [] (endOffset item) True, b1)
                else
                  (case vl item of
                     VL itemVl \<Rightarrow>
                       (if itemVl \<noteq> 0 then
                          readItem_explicit k rde b1 (endOffset item - itemVl) (endOffset item)
                            (AList.update (tag_name (tag item)) item [])
                        else Return (ItemResult (AList.update (tag_name (tag item)) item [])
                                       (endOffset item) False, b1))
                   | UndefinedLength \<Rightarrow>
                       readItem_undefined k rde b1 (endOffset item)
                         (AList.update (tag_name (tag item)) item []))) = Return (r, buffer')"
    unfolding readItemDataElement_on_def Let_def by (auto simp: andThen_Return_iff)
  show ?thesis
  proof (cases "tag_name (tag item) = ''xFFFEE0DD''")
    case True
    with rest i show ?thesis by auto
  next
    case False
    with rest have "\<not> isSeqDelim r"
      by (auto split: vl.splits if_splits
          dest: readItem_explicit_not_delim readItem_undefined_not_delim)
    with False i show ?thesis by auto
  qed
qed

lemma readSQ_undefined_reads:
  "readSQ_undefined k rid buffer offset acc = Return (d, offset', buffer') \<Longrightarrow>
   \<exists>items delim. d = Array (acc @ map (\<lambda>i. Item (item_data i)) items) \<and>
     reads rid item_endOffset buffer offset (items @ [delim]) buffer' offset' \<and>
     isSeqDelim delim \<and> (\<forall>i \<in> set items. \<not> isSeqDelim i) \<and>
     offset' = item_endOffset delim"
proof (induction k arbitrary: buffer offset acc)
  case 0
  then show ?case by simp
next
  case (Suc k)
  from Suc.prems obtain r b1 where i: "rid buffer offset = Return (r, b1)"
    and rec: "(if \<not> isSeqDelim r then
                 readSQ_undefined k rid b1 (item_endOffset r) (acc @ [Item (item_data r)])
               else Return (Array acc, item_endOffset r, b1)) = Return (d, offset', buffer')"
    by (auto simp: andThen_Return_iff)
  show ?case
  proof (cases "isSeqDelim r")
    case True
    with rec have r: "d = Array acc" "offset' = item_endOffset r" "buffer' = b1" by simp_all
    have "reads rid item_endOffset buffer offset ([] @ [r]) buffer' offset'"
      using i r by simp
    with True r show ?thesis by (intro exI [of _ "[]"] exI [of _ r]) simp
  next
    case False
    with rec have "readSQ_undefined k rid b1 (item_endOffset r) (acc @ [Item (item_data r)])
        = Return (d, offset', buffer')" by simp
    from Suc.IH [OF this] obtain items delim where
      d: "d = Array ((acc @ [Item (item_data r)]) @ map (\<lambda>i. Item (item_data i)) items)"
      and c: "reads rid item_endOffset b1 (item_endOffset r) (items @ [delim]) buffer' offset'"
      and t: "isSeqDelim delim" "\<forall>i \<in> set items. \<not> isSeqDelim i"
        "offset' = item_endOffset delim"
      by blast
    have "reads rid item_endOffset buffer offset ((r # items) @ [delim]) buffer' offset'"
      using i c by simp
    with d t False show ?thesis
      by (intro exI [of _ "r # items"] exI [of _ delim]) simp
  qed
qed

text \<open>
  Claim C5, as the code has it. A data element with the VR SQ and undefined length whose tag
  is not the pixel data tag is read by calling \<open>readItemDataElement\<close> from the end of the
  prefix on, each time at the end offset of the result before, up to the first result that is
  a sequence delimitation: there is one such result, the last, its end offset is the end
  offset of the element, and the value is the list of the data of the results before it. A
  result of \<open>readItemDataElement\<close> is a sequence delimitation exactly when the element read at
  its offset has the tag FFFE,E0DD; its data is then empty. When the tag is the pixel data tag
  (7FE0,0010), the items are read as pixel items (lines 767 to 772 come before the test of
  the VR): a first element is read at the end of the prefix whatever its tag, then the
  elements that follow up to the first with the tag FFFE,E0DD, whose end offset is the end
  offset of the element; the value is the list of the elements between the first and the
  last.
\<close>

theorem readDataElement_sequence_undefined_length:
  assumes "readDataElement (Suc n) env this reader buffer offset implicit = Return (e, buffer')"
    and "vr e = ''SQ''" and "vl e = UndefinedLength"
  shows "(tag_name (tag e) \<noteq> ''x7FE00010'' \<longrightarrow>
          (\<exists>items delim.
            reads (\<lambda>buffer offset. readItemDataElement n env this reader buffer offset implicit)
              item_endOffset buffer (offset + prefixSize implicit (tag e) (vr e))
              (items @ [delim]) buffer' (endOffset e) \<and>
            (\<forall>i \<in> set items. \<not> isSeqDelim i) \<and> isSeqDelim delim \<and>
            endOffset e = item_endOffset delim \<and>
            val e = Array (map (\<lambda>i. Item (item_data i)) items))) \<and>
         (tag_name (tag e) = ''x7FE00010'' \<longrightarrow>
          (\<exists>first items delim.
            reads (\<lambda>buffer offset. readDataElement n env this reader buffer offset implicit)
              endOffset buffer (offset + prefixSize implicit (tag e) (vr e))
              (first # items @ [delim]) buffer' (endOffset e) \<and>
            (\<forall>i \<in> set items. tag_name (tag i) \<noteq> ''xFFFEE0DD'') \<and>
            tag_name (tag delim) = ''xFFFEE0DD'' \<and>
            endOffset e = endOffset delim \<and>
            val e = Array (map Elem items))) \<and>
         (\<forall>b offset1 r b1.
            readItemDataElement n env this reader b offset1 implicit = Return (r, b1) \<longrightarrow>
            isSeqDelim r =
              (\<exists>d. readDataElement n env this reader b offset1 implicit = Return (d, b1) \<and>
                   tag_name (tag d) = ''xFFFEE0DD'' \<and> item_endOffset r = endOffset d \<and>
                   item_data r = []))"
proof (intro conjI impI)
  from assms(1) obtain m k offset1 where m: "Suc n = Suc m"
    and h: "readHeader env reader buffer offset implicit = Return (tag e, vr e, vl e, k, offset1)"
    and v: "readValue m
          (\<lambda>buffer offset. readDataElement m env this reader buffer offset implicit)
          env this reader buffer (tag e) (vr e) (vl e) k offset1
        = Return (val e, endOffset e, buffer')"
    by (rule readDataElement_ReturnE)
  from m have mn: "m = n" by simp
  from readHeader_Return [OF h]
  have o: "offset1 = offset + prefixSize implicit (tag e) (vr e)" by simp
  define rde where
    "rde = (\<lambda>buffer offset. readDataElement n env this reader buffer offset implicit)"
  note v' = v [unfolded mn, folded rde_def]
  {
    assume t: "tag_name (tag e) \<noteq> ''x7FE00010''"
    then have np: "\<not> (tag_name (tag e) = ''x7FE00010'' \<and> vl e = UndefinedLength)"
      by simp
    from v' have "readSQ_undefined n (readItemDataElement_on n rde) buffer offset1 []
        = Return (val e, endOffset e, buffer')"
      unfolding assms(2) readValue_SQ [OF np] using assms(3) by simp
    from readSQ_undefined_reads [OF this] o
    show "\<exists>items delim.
        reads (\<lambda>buffer offset. readItemDataElement n env this reader buffer offset implicit)
          item_endOffset buffer (offset + prefixSize implicit (tag e) (vr e))
          (items @ [delim]) buffer' (endOffset e) \<and>
        (\<forall>i \<in> set items. \<not> isSeqDelim i) \<and> isSeqDelim delim \<and>
        endOffset e = item_endOffset delim \<and>
        val e = Array (map (\<lambda>i. Item (item_data i)) items)"
      unfolding readItemDataElement_def [abs_def] rde_def by (simp del: reads.simps) blast
  }
  {
    assume t: "tag_name (tag e) = ''x7FE00010''"
    from v' obtain a where
      a: "readPixelItemDataElement_on n rde buffer offset1 = Return (a, buffer')"
      and d: "val e = Array (map Elem (pix_data a))" and f: "endOffset e = pix_endOffset a"
      unfolding readValue_pixel [OF conjI [OF t assms(3)]]
      by (auto simp: andThen_Return_iff)
    from a obtain first b1 where b: "rde buffer offset1 = Return (first, b1)"
      and l: "readPixelItem_loop n rde b1 (endOffset first) [] = Return (a, buffer')"
      by (auto simp: readPixelItemDataElement_on_def andThen_Return_iff)
    from readPixelItem_loop_reads [OF l] obtain items delim where
      i: "pix_data a = items"
      and c: "reads rde endOffset b1 (endOffset first) (items @ [delim]) buffer' (pix_endOffset a)"
      and u: "tag_name (tag delim) = ''xFFFEE0DD''"
        "\<forall>e \<in> set items. tag_name (tag e) \<noteq> ''xFFFEE0DD''"
        "pix_endOffset a = endOffset delim"
      by auto
    have "reads rde endOffset buffer offset1 (first # items @ [delim]) buffer' (endOffset e)"
      using b c f by simp
    with u d i f o
    have "reads rde endOffset buffer (offset + prefixSize implicit (tag e) (vr e))
            (first # items @ [delim]) buffer' (endOffset e) \<and>
          (\<forall>i \<in> set items. tag_name (tag i) \<noteq> ''xFFFEE0DD'') \<and>
          tag_name (tag delim) = ''xFFFEE0DD'' \<and>
          endOffset e = endOffset delim \<and>
          val e = Array (map Elem items)"
      by (simp del: reads.simps)
    then show "\<exists>first items delim.
        reads (\<lambda>buffer offset. readDataElement n env this reader buffer offset implicit)
          endOffset buffer (offset + prefixSize implicit (tag e) (vr e))
          (first # items @ [delim]) buffer' (endOffset e) \<and>
        (\<forall>i \<in> set items. tag_name (tag i) \<noteq> ''xFFFEE0DD'') \<and>
        tag_name (tag delim) = ''xFFFEE0DD'' \<and>
        endOffset e = endOffset delim \<and>
        val e = Array (map Elem items)"
      unfolding rde_def by blast
  }
  show "\<forall>b offset1 r b1.
      readItemDataElement n env this reader b offset1 implicit = Return (r, b1) \<longrightarrow>
      isSeqDelim r =
        (\<exists>d. readDataElement n env this reader b offset1 implicit = Return (d, b1) \<and>
             tag_name (tag d) = ''xFFFEE0DD'' \<and> item_endOffset r = endOffset d \<and>
             item_data r = [])"
    unfolding readItemDataElement_def
    using readItemDataElement_on_isSeqDelim by blast
qed

lemma sequence1_read:
  "readDataElement (Suc (Suc (Suc 0))) env0 [] (DataReader env0 True) sequence1 0 False
     = Return (sequence1_element, sequence1)"
  by (simp add: eval_simps sequence1_def sequence1_element_def sequence1_item_def
      cong: andThen_weak_cong)

lemma pixelSequence_items_read:
  "readDataElement (Suc 0) env0 [] (DataReader env0 True) pixelSequence 12 False
     = Return (pixelSequence_delimiter1, pixelSequence)"
  "readDataElement (Suc 0) env0 [] (DataReader env0 True) pixelSequence 20 False
     = Return (pixelSequence_delimiter2, pixelSequence)"
  by (simp_all add: eval_simps pixelSequence_def pixelSequence_delimiter1_def
      pixelSequence_delimiter2_def cong: andThen_weak_cong)

lemma pixelSequence_read:
  "readDataElement (Suc (Suc 0)) env0 [] (DataReader env0 True) pixelSequence 0 False
     = Return (pixelSequence_element, pixelSequence)"
  by (simp add: eval_simps pixelSequence_def pixelSequence_element_def
      cong: andThen_weak_cong)

theorem readDataElement_sequence_undefined_length_witness:
  "readDataElement (Suc (Suc (Suc 0))) env0 [] (DataReader env0 True) sequence1 0 False
     = Return (sequence1_element, sequence1) \<and>
   (\<exists>items delim.
      reads (\<lambda>buffer offset.
               readItemDataElement (Suc (Suc 0)) env0 [] (DataReader env0 True) buffer offset False)
        item_endOffset sequence1 12 (items @ [delim]) sequence1 50 \<and>
      isSeqDelim delim \<and> 50 = item_endOffset delim \<and>
      Array [Item (item_data sequence1_item)] = Array (map (\<lambda>i. Item (item_data i)) items)) \<and>
   readDataElement (Suc (Suc 0)) env0 [] (DataReader env0 True) pixelSequence 0 False
     = Return (pixelSequence_element, pixelSequence) \<and>
   (\<exists>first items delim.
      reads (\<lambda>buffer offset.
               readDataElement (Suc 0) env0 [] (DataReader env0 True) buffer offset False)
        endOffset pixelSequence 12 (first # items @ [delim]) pixelSequence 28 \<and>
      tag_name (tag delim) = ''xFFFEE0DD'' \<and> 28 = endOffset delim \<and>
      Array [] = Array (map Elem items))"
proof -
  have h: "vr sequence1_element = ''SQ''" "vl sequence1_element = UndefinedLength"
    and n: "tag_name (tag sequence1_element) \<noteq> ''x7FE00010''"
    by (simp_all add: sequence1_element_def)
  have p: "0 + prefixSize False (tag sequence1_element) (vr sequence1_element) = 12"
    "endOffset sequence1_element = 50"
    "val sequence1_element = Array [Item (item_data sequence1_item)]"
    by (simp_all add: sequence1_element_def prefixSize_def getDataElementPrefixByteSize_def
        is32bitVLVR_def isTagWithVR_def)
  note t = readDataElement_sequence_undefined_length [OF sequence1_read h, THEN conjunct1,
      rule_format, OF n, unfolded p]
  from t obtain items delim where
    c: "reads (\<lambda>buffer offset.
               readItemDataElement (Suc (Suc 0)) env0 [] (DataReader env0 True) buffer offset False)
        item_endOffset sequence1 12 (items @ [delim]) sequence1 50"
    and d: "isSeqDelim delim" "50 = item_endOffset delim"
      "Array [Item (item_data sequence1_item)] = Array (map (\<lambda>i. Item (item_data i)) items)"
    by (elim exE conjE)
  have s: "\<exists>items delim.
      reads (\<lambda>buffer offset.
               readItemDataElement (Suc (Suc 0)) env0 [] (DataReader env0 True) buffer offset False)
        item_endOffset sequence1 12 (items @ [delim]) sequence1 50 \<and>
      isSeqDelim delim \<and> 50 = item_endOffset delim \<and>
      Array [Item (item_data sequence1_item)] = Array (map (\<lambda>i. Item (item_data i)) items)"
  proof (intro exI conjI)
    show "reads (\<lambda>buffer offset.
               readItemDataElement (Suc (Suc 0)) env0 [] (DataReader env0 True) buffer offset False)
        item_endOffset sequence1 12 (items @ [delim]) sequence1 50" by (rule c)
    show "isSeqDelim delim" by (rule d(1))
    show "50 = item_endOffset delim" by (rule d(2))
    show "Array [Item (item_data sequence1_item)] = Array (map (\<lambda>i. Item (item_data i)) items)"
      by (rule d(3))
  qed
  have h': "vr pixelSequence_element = ''SQ''" "vl pixelSequence_element = UndefinedLength"
    and n': "tag_name (tag pixelSequence_element) = ''x7FE00010''"
    by (simp_all add: pixelSequence_element_def)
  have p': "0 + prefixSize False (tag pixelSequence_element) (vr pixelSequence_element) = 12"
    "endOffset pixelSequence_element = 28"
    "val pixelSequence_element = Array []"
    by (simp_all add: pixelSequence_element_def prefixSize_def getDataElementPrefixByteSize_def
        is32bitVLVR_def isTagWithVR_def)
  note t' = readDataElement_sequence_undefined_length [OF pixelSequence_read h',
      THEN conjunct2, THEN conjunct1, rule_format, OF n', unfolded p']
  from t' obtain first items' delim' where
    c': "reads (\<lambda>buffer offset.
               readDataElement (Suc 0) env0 [] (DataReader env0 True) buffer offset False)
        endOffset pixelSequence 12 (first # items' @ [delim']) pixelSequence 28"
    and d': "tag_name (tag delim') = ''xFFFEE0DD''" "28 = endOffset delim'"
      "Array [] = Array (map Elem items')"
    by (elim exE conjE)
  have s': "\<exists>first items delim.
      reads (\<lambda>buffer offset.
               readDataElement (Suc 0) env0 [] (DataReader env0 True) buffer offset False)
        endOffset pixelSequence 12 (first # items @ [delim]) pixelSequence 28 \<and>
      tag_name (tag delim) = ''xFFFEE0DD'' \<and> 28 = endOffset delim \<and>
      Array [] = Array (map Elem items)"
  proof (intro exI conjI)
    show "reads (\<lambda>buffer offset.
               readDataElement (Suc 0) env0 [] (DataReader env0 True) buffer offset False)
        endOffset pixelSequence 12 (first # items' @ [delim']) pixelSequence 28" by (rule c')
    show "tag_name (tag delim') = ''xFFFEE0DD''" by (rule d'(1))
    show "28 = endOffset delim'" by (rule d'(2))
    show "Array [] = Array (map Elem items')" by (rule d'(3))
  qed
  from sequence1_read s pixelSequence_read s' show ?thesis by (intro conjI)
qed

text \<open>
  Claim C5 as stated fails for the pixel data tag: the element (7FE0,0010) with the VR SQ
  and undefined length that is followed by two sequence delimitation items is read to the end
  of the second one. The first, at offset 12, has the tag FFFE,E0DD and ends at 20, where
  \<open>readItemDataElement\<close> reports a sequence delimitation; the element ends at 28.
\<close>

theorem readDataElement_pixel_sequence_two_delimiters:
  "readDataElement (Suc (Suc 0)) env0 [] (DataReader env0 True) pixelSequence 0 False
     = Return (pixelSequence_element, pixelSequence) \<and>
   vr pixelSequence_element = ''SQ'' \<and> vl pixelSequence_element = UndefinedLength \<and>
   readItemDataElement (Suc 0) env0 [] (DataReader env0 True) pixelSequence 12 False
     = Return (ItemResult [] 20 True, pixelSequence) \<and>
   readDataElement (Suc 0) env0 [] (DataReader env0 True) pixelSequence 12 False
     = Return (pixelSequence_delimiter1, pixelSequence) \<and>
   tag_name (tag pixelSequence_delimiter1) = ''xFFFEE0DD'' \<and>
   readDataElement (Suc 0) env0 [] (DataReader env0 True) pixelSequence 20 False
     = Return (pixelSequence_delimiter2, pixelSequence) \<and>
   tag_name (tag pixelSequence_delimiter2) = ''xFFFEE0DD'' \<and>
   endOffset pixelSequence_delimiter1 = 20 \<and>
   endOffset pixelSequence_element = 28"
proof -
  have "readItemDataElement (Suc 0) env0 [] (DataReader env0 True) pixelSequence 12 False
     = Return (ItemResult [] 20 True, pixelSequence)"
    unfolding readItemDataElement_def readItemDataElement_on_def pixelSequence_items_read(1)
    by (simp add: pixelSequence_delimiter1_def)
  with pixelSequence_read pixelSequence_items_read show ?thesis
    by (simp add: pixelSequence_element_def pixelSequence_delimiter1_def
        pixelSequence_delimiter2_def del: readDataElement.simps)
qed

section \<open>The pixel buffer\<close>






















section \<open>Fuel\<close>

text \<open>
  A result other than \<open>OutOfFuel\<close> is the result at every larger fuel: first for the loops,
  whose reader of nested elements may be replaced by one that agrees with it wherever it has
  a result, then for \<open>readDataElement\<close> and \<open>parse\<close>.
\<close>

lemma andThen_fuel:
  assumes "andThen m f \<noteq> OutOfFuel"
    and "m \<noteq> OutOfFuel \<Longrightarrow> m' = m"
    and "\<And>x. m = Return x \<Longrightarrow> f x \<noteq> OutOfFuel \<Longrightarrow> f' x = f x"
  shows "andThen m' f' = andThen m f"
  using assms by (cases m) auto

lemma readItem_explicit_fuel:
  assumes r: "\<And>b o'. rde b o' \<noteq> OutOfFuel \<Longrightarrow> rde' b o' = rde b o'"
  shows "readItem_explicit k rde buffer offset end' acc \<noteq> OutOfFuel \<Longrightarrow>
         readItem_explicit (Suc k) rde' buffer offset end' acc =
           readItem_explicit k rde buffer offset end' acc"
proof (induction k arbitrary: buffer offset acc)
  case 0
  then show ?case by simp
next
  case (Suc k)
  note p = Suc.prems [unfolded readItem_explicit.simps(2)]
  note u = readItem_explicit.simps(2) [of "Suc k"] readItem_explicit.simps(2) [of k rde]
  show ?case
  proof (cases "offset < end'")
    case True
    with p have n: "andThen (rde buffer offset) (\<lambda>(item, buffer).
          readItem_explicit k rde buffer (endOffset item) end'
            (AList.update (tag_name (tag item)) item acc)) \<noteq> OutOfFuel"
      by simp
    have "andThen (rde' buffer offset) (\<lambda>(item, buffer).
          readItem_explicit (Suc k) rde' buffer (endOffset item) end'
            (AList.update (tag_name (tag item)) item acc)) =
        andThen (rde buffer offset) (\<lambda>(item, buffer).
          readItem_explicit k rde buffer (endOffset item) end'
            (AList.update (tag_name (tag item)) item acc))"
      by (rule andThen_fuel [OF n]) (auto simp del: readItem_explicit.simps intro: r Suc.IH)
    with True show ?thesis by (simp only: u if_True)
  next
    case False
    then show ?thesis by (simp only: u if_False)
  qed
qed

lemma readItem_undefined_fuel:
  assumes r: "\<And>b o'. rde b o' \<noteq> OutOfFuel \<Longrightarrow> rde' b o' = rde b o'"
  shows "readItem_undefined k rde buffer offset acc \<noteq> OutOfFuel \<Longrightarrow>
         readItem_undefined (Suc k) rde' buffer offset acc =
           readItem_undefined k rde buffer offset acc"
proof (induction k arbitrary: buffer offset acc)
  case 0
  then show ?case by simp
next
  case (Suc k)
  note n = Suc.prems [unfolded readItem_undefined.simps(2)]
  note u = readItem_undefined.simps(2) [of "Suc k"] readItem_undefined.simps(2) [of k rde]
  show ?case
    unfolding u
    by (rule andThen_fuel [OF n])
      (auto simp del: readItem_undefined.simps simp add: r Suc.IH)
qed

lemma readItemDataElement_on_fuel:
  assumes r: "\<And>b o'. rde b o' \<noteq> OutOfFuel \<Longrightarrow> rde' b o' = rde b o'"
    and n: "readItemDataElement_on k rde buffer offset \<noteq> OutOfFuel"
  shows "readItemDataElement_on (Suc k) rde' buffer offset =
           readItemDataElement_on k rde buffer offset"
  unfolding readItemDataElement_on_def
  by (rule andThen_fuel [OF n [unfolded readItemDataElement_on_def]])
    (auto simp: Let_def r readItem_explicit_fuel [OF r] readItem_undefined_fuel [OF r]
      simp del: readItem_explicit.simps readItem_undefined.simps split: vl.splits)

lemma readPixelItem_loop_fuel:
  assumes r: "\<And>b o'. rde b o' \<noteq> OutOfFuel \<Longrightarrow> rde' b o' = rde b o'"
  shows "readPixelItem_loop k rde buffer offset acc \<noteq> OutOfFuel \<Longrightarrow>
         readPixelItem_loop (Suc k) rde' buffer offset acc =
           readPixelItem_loop k rde buffer offset acc"
proof (induction k arbitrary: buffer offset acc)
  case 0
  then show ?case by simp
next
  case (Suc k)
  note n = Suc.prems [unfolded readPixelItem_loop.simps(2)]
  note u = readPixelItem_loop.simps(2) [of "Suc k"] readPixelItem_loop.simps(2) [of k rde]
  show ?case
    unfolding u
    by (rule andThen_fuel [OF n])
      (auto simp del: readPixelItem_loop.simps simp add: r Suc.IH)
qed

lemma readPixelItemDataElement_on_fuel:
  assumes r: "\<And>b o'. rde b o' \<noteq> OutOfFuel \<Longrightarrow> rde' b o' = rde b o'"
    and n: "readPixelItemDataElement_on k rde buffer offset \<noteq> OutOfFuel"
  shows "readPixelItemDataElement_on (Suc k) rde' buffer offset =
           readPixelItemDataElement_on k rde buffer offset"
  unfolding readPixelItemDataElement_on_def
  by (rule andThen_fuel [OF n [unfolded readPixelItemDataElement_on_def]])
    (auto simp del: readPixelItem_loop.simps simp add: r readPixelItem_loop_fuel [OF r])

lemma readSQ_explicit_fuel:
  assumes r: "\<And>b o'. rid b o' \<noteq> OutOfFuel \<Longrightarrow> rid' b o' = rid b o'"
  shows "readSQ_explicit k rid buffer offset end' acc \<noteq> OutOfFuel \<Longrightarrow>
         readSQ_explicit (Suc k) rid' buffer offset end' acc =
           readSQ_explicit k rid buffer offset end' acc"
proof (induction k arbitrary: buffer offset acc)
  case 0
  then show ?case by simp
next
  case (Suc k)
  note p = Suc.prems [unfolded readSQ_explicit.simps(2)]
  note u = readSQ_explicit.simps(2) [of "Suc k"] readSQ_explicit.simps(2) [of k rid]
  show ?case
  proof (cases "offset < end'")
    case True
    with p have n: "andThen (rid buffer offset) (\<lambda>(itemData, buffer).
          readSQ_explicit k rid buffer (item_endOffset itemData) end'
            (acc @ [Item (item_data itemData)])) \<noteq> OutOfFuel"
      by simp
    have "andThen (rid' buffer offset) (\<lambda>(itemData, buffer).
          readSQ_explicit (Suc k) rid' buffer (item_endOffset itemData) end'
            (acc @ [Item (item_data itemData)])) =
        andThen (rid buffer offset) (\<lambda>(itemData, buffer).
          readSQ_explicit k rid buffer (item_endOffset itemData) end'
            (acc @ [Item (item_data itemData)]))"
      by (rule andThen_fuel [OF n]) (auto simp del: readSQ_explicit.simps intro: r Suc.IH)
    with True show ?thesis by (simp only: u if_True)
  next
    case False
    then show ?thesis by (simp only: u if_False)
  qed
qed

lemma readSQ_undefined_fuel:
  assumes r: "\<And>b o'. rid b o' \<noteq> OutOfFuel \<Longrightarrow> rid' b o' = rid b o'"
  shows "readSQ_undefined k rid buffer offset acc \<noteq> OutOfFuel \<Longrightarrow>
         readSQ_undefined (Suc k) rid' buffer offset acc =
           readSQ_undefined k rid buffer offset acc"
proof (induction k arbitrary: buffer offset acc)
  case 0
  then show ?case by simp
next
  case (Suc k)
  note n = Suc.prems [unfolded readSQ_undefined.simps(2)]
  note u = readSQ_undefined.simps(2) [of "Suc k"] readSQ_undefined.simps(2) [of k rid]
  show ?case
    unfolding u
    by (rule andThen_fuel [OF n])
      (auto simp del: readSQ_undefined.simps simp add: r Suc.IH)
qed

lemma readValue_fuel:
  assumes r: "\<And>b o'. rde b o' \<noteq> OutOfFuel \<Longrightarrow> rde' b o' = rde b o'"
    and n: "readValue k rde env this rd buffer t v l len offset \<noteq> OutOfFuel"
  shows "readValue (Suc k) rde' env this rd buffer t v l len offset =
           readValue k rde env this rd buffer t v l len offset"
proof -
  note i = readItemDataElement_on_fuel [OF r]
  consider (pixel) "tag_name t = ''x7FE00010'' \<and> l = UndefinedLength"
    | (sq) "\<not> (tag_name t = ''x7FE00010'' \<and> l = UndefinedLength)" "v = ''SQ''"
    | (leaf) "\<not> (tag_name t = ''x7FE00010'' \<and> l = UndefinedLength)" "v \<noteq> ''SQ''"
    by blast
  then show ?thesis
  proof cases
    case pixel
    from n have "readPixelItemDataElement_on k rde buffer offset \<noteq> OutOfFuel"
      unfolding readValue_pixel [OF pixel] by (rule contrapos_nn) simp
    from readPixelItemDataElement_on_fuel [OF r this] show ?thesis
      unfolding readValue_pixel [OF pixel] by simp
  next
    case sq
    note s = readValue_SQ [OF sq(1)]
    from n show ?thesis
      unfolding sq(2) s
      by (auto simp del: readSQ_explicit.simps readSQ_undefined.simps
          simp add: readSQ_explicit_fuel [OF i] readSQ_undefined_fuel [OF i])
  next
    case leaf
    from leaf(1) have "(tag_name t = ''x7FE00010'' \<and> l = UndefinedLength) = False"
      by simp
    with leaf(2) show ?thesis
      unfolding readValue_def by (simp only: if_False)
  qed
qed

lemma readDataElement_fuel_Suc:
  "readDataElement n env this rd buffer offset implicit \<noteq> OutOfFuel \<Longrightarrow>
   readDataElement (Suc n) env this rd buffer offset implicit =
     readDataElement n env this rd buffer offset implicit"
proof (induction n arbitrary: buffer offset)
  case 0
  then show ?case by simp
next
  case (Suc n)
  note p = Suc.prems [unfolded readDataElement_Suc]
  have r: "readValue (Suc n)
        (\<lambda>buffer offset. readDataElement (Suc n) env this rd buffer offset implicit)
        env this rd buffer t v l len offset1 =
      readValue n (\<lambda>buffer offset. readDataElement n env this rd buffer offset implicit)
        env this rd buffer t v l len offset1"
    if "readValue n (\<lambda>buffer offset. readDataElement n env this rd buffer offset implicit)
        env this rd buffer t v l len offset1 \<noteq> OutOfFuel" for t v l len offset1
    by (rule readValue_fuel [OF Suc.IH that])
  show ?case
    unfolding readDataElement_Suc [of "Suc n"]
      readDataElement_Suc [of n env this rd buffer offset implicit]
    apply (rule andThen_fuel [OF p refl])
    apply (clarsimp simp del: readDataElement.simps)
    apply (erule andThen_fuel)
     apply (erule r)
    apply (rule refl)
    done
qed

lemma readDataElement_fuel:
  assumes "readDataElement n env this rd buffer offset implicit \<noteq> OutOfFuel" and "n \<le> m"
  shows "readDataElement m env this rd buffer offset implicit =
           readDataElement n env this rd buffer offset implicit"
  using assms(2,1)
proof (induction m rule: dec_induct)
  case base
  show ?case by (rule refl)
next
  case (step m)
  from step.IH [OF step.prems] step.prems
  have "readDataElement m env this rd buffer offset implicit \<noteq> OutOfFuel"
    by simp
  from readDataElement_fuel_Suc [OF this] step.IH [OF step.prems]
  show ?case by simp
qed

text \<open>
  Every read has a result or throws when the fuel is larger than the number of bytes from the
  offset to the end of the buffer: a data element that is returned takes eight bytes or more
  of the buffer, so that each loop and each nesting moves on in the buffer.
\<close>

lemma andThen_total:
  assumes "m \<noteq> OutOfFuel" and "\<And>x. m = Return x \<Longrightarrow> f x \<noteq> OutOfFuel"
  shows "andThen m f \<noteq> OutOfFuel"
  using assms by (cases m) auto

lemma andThen_OutOfFuel_iff:
  "andThen m f = OutOfFuel \<longleftrightarrow> m = OutOfFuel \<or> (\<exists>x. m = Return x \<and> f x = OutOfFuel)"
  by (cases m) auto

lemma dataViewGet_total: "dataViewGet buffer n byteOffset le \<noteq> OutOfFuel"
  by (simp add: dataViewGet_def)

lemma readUint8Array_total: "readUint8Array rd buffer byteOffset size' \<noteq> OutOfFuel"
  by (simp add: readUint8Array_def)

lemma readString_total: "readString rd buffer byteOffset nChars \<noteq> OutOfFuel"
  unfolding readString_def by (rule andThen_total [OF readUint8Array_total]) simp

lemma readHex_total: "readHex rd buffer byteOffset \<noteq> OutOfFuel"
  unfolding readHex_def readUint16_def
  by (rule andThen_total [OF dataViewGet_total]) (simp add: Let_def)

lemma readArray_loop_total:
  "readArray_loop T rd buffer byteOffset size' i data' \<noteq> OutOfFuel"
proof (induction T rd buffer byteOffset size' i data' rule: readArray_loop.induct)
  case (1 T rd buffer byteOffset size' i data')
  show ?case
  proof (cases "i * BYTES_PER_ELEMENT T < size'")
    case True
    have "andThen (dataViewGet buffer (BYTES_PER_ELEMENT T) (byteOffset + BYTES_PER_ELEMENT T * i)
                     (isLittleEndian rd))
            (\<lambda>x. readArray_loop T rd buffer byteOffset size' (i + 1) (data'[i := x]))
          \<noteq> OutOfFuel"
      by (rule andThen_total [OF dataViewGet_total]) (rule 1 [OF True])
    with True show ?thesis by (subst readArray_loop.simps) simp
  next
    case False
    then show ?thesis by (subst readArray_loop.simps) simp
  qed
qed

lemma readTypedArray_total: "readTypedArray T rd buffer byteOffset size' \<noteq> OutOfFuel"
proof -
  have "andThen (readArray_loop T rd buffer byteOffset size' 0
                   (replicate (size' div BYTES_PER_ELEMENT T) 0))
          (\<lambda>data'. Return (NewArray T data', buffer)) \<noteq> OutOfFuel"
    by (rule andThen_total [OF readArray_loop_total]) simp
  then show ?thesis by (simp add: readTypedArray_def Let_def)
qed

lemma readArrayValue_total: "r \<noteq> OutOfFuel \<Longrightarrow> readArrayValue r offset' \<noteq> OutOfFuel"
  unfolding readArrayValue_def by (erule andThen_total) auto

lemma readAT_loop_total: "readAT_loop raw \<noteq> OutOfFuel"
proof (induction raw rule: readAT_loop.induct)
  case (3 x y raw)
  have "andThen (readAT_loop raw)
          (\<lambda>data'. Return (Str (''('' @ pad4 x @ '','' @ pad4 y @ '')'') # data')) \<noteq> OutOfFuel"
    by (rule andThen_total [OF 3]) simp
  then show ?case by simp
qed simp_all

lemma readTag_total: "readTag rd buffer offset \<noteq> OutOfFuel"
  unfolding readTag_def
  by (rule andThen_total [OF readHex_total], rule andThen_total [OF readHex_total]) simp

lemma readVR_total: "readVR env rd buffer t offset implicit \<noteq> OutOfFuel"
proof -
  have "andThen (readString rd buffer offset 2) (\<lambda>vr.
          let offset = offset + 2; is32 = is32bitVLVR vr
          in Return (vr, is32, if is32 then offset + 2 else offset)) \<noteq> OutOfFuel"
    by (rule andThen_total [OF readString_total]) (simp add: Let_def)
  then show ?thesis by (simp add: readVR_def)
qed

lemma readVL_total: "readVL rd buffer is32 offset \<noteq> OutOfFuel"
proof -
  have "(if is32 then andThen (readUint32 rd buffer offset) (\<lambda>v. Return (v, offset + 4))
         else andThen (readUint16 rd buffer offset) (\<lambda>v. Return (v, offset + 2))) \<noteq> OutOfFuel"
    by (simp add: readUint32_def readUint16_def andThen_OutOfFuel_iff dataViewGet_total)
  then show ?thesis
    unfolding readVL_def by (rule andThen_total) (auto split: if_splits)
qed

lemma readHeader_total: "readHeader env rd buffer offset implicit \<noteq> OutOfFuel"
  unfolding readHeader_def
  by (auto simp: andThen_OutOfFuel_iff readTag_total readVR_total readVL_total)


lemma readItem_explicit_total:
  assumes s: "\<And>b o'. length b - o' < k \<Longrightarrow> rde b o' \<noteq> OutOfFuel"
    and a: "advances rde"
    and i: "\<And>b o' e b'. rde b o' = Return (e, b') \<Longrightarrow> o' + 8 \<le> length b"
  shows "j \<le> k \<Longrightarrow> length buffer - offset < j \<Longrightarrow>
         readItem_explicit j rde buffer offset end' acc \<noteq> OutOfFuel"
proof (induction j arbitrary: buffer offset acc)
  case 0
  then show ?case by simp
next
  case (Suc j)
  from Suc.prems have "rde buffer offset \<noteq> OutOfFuel" by (intro s) simp
  then have "andThen (rde buffer offset) (\<lambda>(item, buffer).
        readItem_explicit j rde buffer (endOffset item) end'
          (AList.update (tag_name (tag item)) item acc)) \<noteq> OutOfFuel"
  proof (rule andThen_total)
    fix x assume x: "rde buffer offset = Return x"
    obtain item b1 where p: "x = (item, b1)" by (cases x)
    from advancesD [OF a x [unfolded p]] i [OF x [unfolded p]] Suc.prems
    have "j \<le> k" and "length b1 - endOffset item < j" by arith+
    from Suc.IH [OF this]
    show "(case x of (item, buffer) \<Rightarrow>
        readItem_explicit j rde buffer (endOffset item) end'
          (AList.update (tag_name (tag item)) item acc)) \<noteq> OutOfFuel"
      unfolding p by simp
  qed
  then show ?case by simp
qed

lemma readItem_undefined_total:
  assumes s: "\<And>b o'. length b - o' < k \<Longrightarrow> rde b o' \<noteq> OutOfFuel"
    and a: "advances rde"
    and i: "\<And>b o' e b'. rde b o' = Return (e, b') \<Longrightarrow> o' + 8 \<le> length b"
  shows "j \<le> k \<Longrightarrow> length buffer - offset < j \<Longrightarrow>
         readItem_undefined j rde buffer offset acc \<noteq> OutOfFuel"
proof (induction j arbitrary: buffer offset acc)
  case 0
  then show ?case by simp
next
  case (Suc j)
  from Suc.prems have "rde buffer offset \<noteq> OutOfFuel" by (intro s) simp
  then have "andThen (rde buffer offset) (\<lambda>(item, buffer).
       if \<not> (tag_name (tag item) = ''xFFFEE00D'') then
         readItem_undefined j rde buffer (endOffset item)
           (AList.update (tag_name (tag item)) item acc)
       else Return (ItemResult acc (endOffset item) False, buffer)) \<noteq> OutOfFuel"
  proof (rule andThen_total)
    fix x assume x: "rde buffer offset = Return x"
    obtain item b1 where p: "x = (item, b1)" by (cases x)
    from advancesD [OF a x [unfolded p]] i [OF x [unfolded p]] Suc.prems
    have "j \<le> k" and "length b1 - endOffset item < j" by arith+
    from Suc.IH [OF this]
    show "(case x of (item, buffer) \<Rightarrow>
       if \<not> (tag_name (tag item) = ''xFFFEE00D'') then
         readItem_undefined j rde buffer (endOffset item)
           (AList.update (tag_name (tag item)) item acc)
       else Return (ItemResult acc (endOffset item) False, buffer)) \<noteq> OutOfFuel"
      unfolding p by simp
  qed
  then show ?case by simp
qed

lemma readPixelItem_loop_total:
  assumes s: "\<And>b o'. length b - o' < k \<Longrightarrow> rde b o' \<noteq> OutOfFuel"
    and a: "advances rde"
    and i: "\<And>b o' e b'. rde b o' = Return (e, b') \<Longrightarrow> o' + 8 \<le> length b"
  shows "j \<le> k \<Longrightarrow> length buffer - offset < j \<Longrightarrow>
         readPixelItem_loop j rde buffer offset acc \<noteq> OutOfFuel"
proof (induction j arbitrary: buffer offset acc)
  case 0
  then show ?case by simp
next
  case (Suc j)
  from Suc.prems have "rde buffer offset \<noteq> OutOfFuel" by (intro s) simp
  then have "andThen (rde buffer offset) (\<lambda>(item, buffer).
       if \<not> (tag_name (tag item) = ''xFFFEE0DD'') then
         readPixelItem_loop j rde buffer (endOffset item) (acc @ [item])
       else Return (PixelItemResult acc (endOffset item), buffer)) \<noteq> OutOfFuel"
  proof (rule andThen_total)
    fix x assume x: "rde buffer offset = Return x"
    obtain item b1 where p: "x = (item, b1)" by (cases x)
    from advancesD [OF a x [unfolded p]] i [OF x [unfolded p]] Suc.prems
    have "j \<le> k" and "length b1 - endOffset item < j" by arith+
    from Suc.IH [OF this]
    show "(case x of (item, buffer) \<Rightarrow>
       if \<not> (tag_name (tag item) = ''xFFFEE0DD'') then
         readPixelItem_loop j rde buffer (endOffset item) (acc @ [item])
       else Return (PixelItemResult acc (endOffset item), buffer)) \<noteq> OutOfFuel"
      unfolding p by simp
  qed
  then show ?case by simp
qed

lemma readSQ_explicit_total:
  assumes s: "\<And>b o'. length b - o' < k \<Longrightarrow> rid b o' \<noteq> OutOfFuel"
    and a: "item_advances rid"
    and i: "\<And>b o' r b'. rid b o' = Return (r, b') \<Longrightarrow> o' + 8 \<le> length b"
  shows "j \<le> k \<Longrightarrow> length buffer - offset < j \<Longrightarrow>
         readSQ_explicit j rid buffer offset end' acc \<noteq> OutOfFuel"
proof (induction j arbitrary: buffer offset acc)
  case 0
  then show ?case by simp
next
  case (Suc j)
  from Suc.prems have "rid buffer offset \<noteq> OutOfFuel" by (intro s) simp
  then have "andThen (rid buffer offset) (\<lambda>(itemData, buffer).
        readSQ_explicit j rid buffer (item_endOffset itemData) end'
          (acc @ [Item (item_data itemData)])) \<noteq> OutOfFuel"
  proof (rule andThen_total)
    fix x assume x: "rid buffer offset = Return x"
    obtain r b1 where p: "x = (r, b1)" by (cases x)
    from item_advancesD [OF a x [unfolded p]] i [OF x [unfolded p]] Suc.prems
    have "j \<le> k" and "length b1 - item_endOffset r < j" by arith+
    from Suc.IH [OF this]
    show "(case x of (itemData, buffer) \<Rightarrow>
        readSQ_explicit j rid buffer (item_endOffset itemData) end'
          (acc @ [Item (item_data itemData)])) \<noteq> OutOfFuel"
      unfolding p by simp
  qed
  then show ?case by simp
qed

lemma readSQ_undefined_total:
  assumes s: "\<And>b o'. length b - o' < k \<Longrightarrow> rid b o' \<noteq> OutOfFuel"
    and a: "item_advances rid"
    and i: "\<And>b o' r b'. rid b o' = Return (r, b') \<Longrightarrow> o' + 8 \<le> length b"
  shows "j \<le> k \<Longrightarrow> length buffer - offset < j \<Longrightarrow>
         readSQ_undefined j rid buffer offset acc \<noteq> OutOfFuel"
proof (induction j arbitrary: buffer offset acc)
  case 0
  then show ?case by simp
next
  case (Suc j)
  from Suc.prems have "rid buffer offset \<noteq> OutOfFuel" by (intro s) simp
  then have "andThen (rid buffer offset) (\<lambda>(itemData, buffer).
       if \<not> isSeqDelim itemData then
         readSQ_undefined j rid buffer (item_endOffset itemData)
           (acc @ [Item (item_data itemData)])
       else Return (Array acc, item_endOffset itemData, buffer)) \<noteq> OutOfFuel"
  proof (rule andThen_total)
    fix x assume x: "rid buffer offset = Return x"
    obtain r b1 where p: "x = (r, b1)" by (cases x)
    from item_advancesD [OF a x [unfolded p]] i [OF x [unfolded p]] Suc.prems
    have "j \<le> k" and "length b1 - item_endOffset r < j" by arith+
    from Suc.IH [OF this]
    show "(case x of (itemData, buffer) \<Rightarrow>
       if \<not> isSeqDelim itemData then
         readSQ_undefined j rid buffer (item_endOffset itemData)
           (acc @ [Item (item_data itemData)])
       else Return (Array acc, item_endOffset itemData, buffer)) \<noteq> OutOfFuel"
      unfolding p by simp
  qed
  then show ?case by simp
qed

lemma readItemDataElement_on_in_buffer:
  assumes i: "\<And>b o' e b'. rde b o' = Return (e, b') \<Longrightarrow> o' + 8 \<le> length b"
    and r: "readItemDataElement_on k rde buffer offset = Return (r, buffer')"
  shows "offset + 8 \<le> length buffer"
proof -
  from r obtain x where "rde buffer offset = Return x"
    unfolding readItemDataElement_on_def by (auto simp: andThen_Return_iff)
  then show ?thesis by (cases x) (auto dest: i)
qed

lemma readItemDataElement_on_total:
  assumes s: "\<And>b o'. length b - o' < k \<Longrightarrow> rde b o' \<noteq> OutOfFuel"
    and a: "advances rde"
    and i: "\<And>b o' e b'. rde b o' = Return (e, b') \<Longrightarrow> o' + 8 \<le> length b"
    and l: "length buffer - offset < k"
  shows "readItemDataElement_on k rde buffer offset \<noteq> OutOfFuel"
  unfolding readItemDataElement_on_def
proof (rule andThen_total)
  from l show "rde buffer offset \<noteq> OutOfFuel" by (rule s)
next
  fix x assume x: "rde buffer offset = Return x"
  obtain item b1 where p: "x = (item, b1)" by (cases x)
  note A = advancesD [OF a x [unfolded p]] and I = i [OF x [unfolded p]]
  from A I l have u: "length b1 - endOffset item < k" by arith
  have e: "readItem_explicit k rde b1 (endOffset item - n) (endOffset item)
      (AList.update (tag_name (tag item)) item []) \<noteq> OutOfFuel" if "vl item = VL n" for n
  proof (rule readItem_explicit_total [OF s a i order_refl])
    from that have "effectiveVL (vl item) = n" by (simp add: effectiveVL_def)
    with A I l show "length b1 - (endOffset item - n) < k"
      by arith
  qed
  from readItem_undefined_total [OF s a i order_refl u] e
  show "(case x of (item, buffer) \<Rightarrow>
       let offset = endOffset item in
       if tag_name (tag item) = ''xFFFEE0DD'' then
         Return (ItemResult [] (endOffset item) True, buffer)
       else
         (let itemData = AList.update (tag_name (tag item)) item [] in
          case vl item of
            VL itemVl \<Rightarrow>
              (if itemVl \<noteq> 0 then
                 readItem_explicit k rde buffer (offset - itemVl) offset itemData
               else Return (ItemResult itemData offset False, buffer))
          | UndefinedLength \<Rightarrow> readItem_undefined k rde buffer offset itemData)) \<noteq> OutOfFuel"
    unfolding p by (simp add: Let_def split: vl.splits)
qed

lemma readPixelItemDataElement_on_total:
  assumes s: "\<And>b o'. length b - o' < k \<Longrightarrow> rde b o' \<noteq> OutOfFuel"
    and a: "advances rde"
    and i: "\<And>b o' e b'. rde b o' = Return (e, b') \<Longrightarrow> o' + 8 \<le> length b"
    and l: "length buffer - offset < k"
  shows "readPixelItemDataElement_on k rde buffer offset \<noteq> OutOfFuel"
  unfolding readPixelItemDataElement_on_def
proof (rule andThen_total)
  from l show "rde buffer offset \<noteq> OutOfFuel" by (rule s)
next
  fix x assume x: "rde buffer offset = Return x"
  obtain item b1 where p: "x = (item, b1)" by (cases x)
  from advancesD [OF a x [unfolded p]] i [OF x [unfolded p]] l
  have "length b1 - endOffset item < k" by arith
  from readPixelItem_loop_total [OF s a i order_refl this]
  show "(case x of (item, buffer) \<Rightarrow> readPixelItem_loop k rde buffer (endOffset item) [])
      \<noteq> OutOfFuel"
    unfolding p by simp
qed

lemma readValue_total:
  assumes s: "\<And>b o'. length b - o' < k \<Longrightarrow> rde b o' \<noteq> OutOfFuel"
    and a: "advances rde"
    and i: "\<And>b o' e b'. rde b o' = Return (e, b') \<Longrightarrow> o' + 8 \<le> length b"
    and l: "length buffer - offset < k"
  shows "readValue k rde env this rd buffer t v vlString n offset \<noteq> OutOfFuel"
proof -
  note S = readItemDataElement_on_total [OF s a i]
    and A = readItemDataElement_on_advances [OF a, of k]
    and I = readItemDataElement_on_in_buffer [OF i]
  consider (pixel) "tag_name t = ''x7FE00010'' \<and> vlString = UndefinedLength"
    | (sq) "\<not> (tag_name t = ''x7FE00010'' \<and> vlString = UndefinedLength)" "v = ''SQ''"
    | (leaf) "\<not> (tag_name t = ''x7FE00010'' \<and> vlString = UndefinedLength)" "v \<noteq> ''SQ''"
    by blast
  then show ?thesis
  proof cases
    case pixel
    show ?thesis
      unfolding readValue_pixel [OF pixel]
      by (rule andThen_total [OF readPixelItemDataElement_on_total [OF s a i l]]) auto
  next
    case sq
    from l have "length buffer - offset < k" .
    note e = readSQ_explicit_total [OF S A I order_refl l]
      and u = readSQ_undefined_total [OF S A I order_refl l]
    show ?thesis
      unfolding sq(2) readValue_SQ [OF sq(1)] using e u by simp
  next
    case leaf
    from leaf(1) have "(tag_name t = ''x7FE00010'' \<and> vlString = UndefinedLength) = False"
      by simp
    with leaf(2) show ?thesis
      unfolding readValue_def
      apply (simp only: if_False)
      apply (simp add: andThen_OutOfFuel_iff readUint8Array_total readArrayValue_total
          readTypedArray_total readArray_defs readAT_loop_total readString_total
          split: prod.splits)
      done
  qed
qed

lemma readDataElement_in_buffer:
  assumes "readDataElement n env this rd buffer offset implicit = Return (e, buffer')"
  shows "offset + 8 \<le> length buffer"
proof -
  from assms obtain m k offset1 where
    "readHeader env rd buffer offset implicit = Return (tag e, vr e, vl e, k, offset1)"
    by (rule readDataElement_ReturnE)
  from readHeader_Return [OF this] prefixSize_ge [of implicit "tag e" "vr e"]
  show ?thesis by simp
qed

lemma readDataElement_total:
  "length buffer - offset < n \<Longrightarrow>
   readDataElement n env this rd buffer offset implicit \<noteq> OutOfFuel"
proof (induction n arbitrary: buffer offset)
  case 0
  then show ?case by simp
next
  case (Suc n)
  show ?case
    unfolding readDataElement_Suc
  proof (rule andThen_total [OF readHeader_total])
    fix x assume x: "readHeader env rd buffer offset implicit = Return x"
    obtain t v l k offset1 where p: "x = (t, v, l, k, offset1)" by (cases x)
    from readHeader_Return [OF x [unfolded p]] prefixSize_ge [of implicit t v] Suc.prems
    have "length buffer - offset1 < n" by arith
    from readValue_total [of n "\<lambda>buffer offset. readDataElement n env this rd buffer offset implicit",
        OF Suc.IH readDataElement_advances readDataElement_in_buffer this]
    have "readValue n (\<lambda>buffer offset. readDataElement n env this rd buffer offset implicit)
        env this rd buffer t v l k offset1 \<noteq> OutOfFuel" .
    then have "andThen (readValue n
          (\<lambda>buffer offset. readDataElement n env this rd buffer offset implicit)
          env this rd buffer t v l k offset1)
        (\<lambda>(d, offset, buffer). Return (DataElement t v l d offset, buffer)) \<noteq> OutOfFuel"
      by (rule andThen_total) auto
    then show "(case x of (t, v, l, k, offset) \<Rightarrow>
        andThen (readValue n
          (\<lambda>buffer offset. readDataElement n env this rd buffer offset implicit)
          env this rd buffer t v l k offset)
        (\<lambda>(d, offset, buffer). Return (DataElement t v l d offset, buffer))) \<noteq> OutOfFuel"
      unfolding p by simp
  qed
qed

text \<open>The same for \<open>parse\<close>: its two loops, and the function.\<close>

lemma parse_metaLoop_fuel:
  "parse_metaLoop k n env this rd buffer offset metaEnd \<noteq> OutOfFuel \<Longrightarrow>
   parse_metaLoop (Suc k) (Suc n) env this rd buffer offset metaEnd =
     parse_metaLoop k n env this rd buffer offset metaEnd"
proof (induction k arbitrary: this buffer offset)
  case 0
  then show ?case by simp
next
  case (Suc k)
  note u = parse_metaLoop.simps(2) [of "Suc k"] parse_metaLoop.simps(2) [of k n]
  show ?case
  proof (cases "case metaEnd of None \<Rightarrow> False | Some m \<Rightarrow> int offset < m")
    case True
    with Suc.prems have n: "andThen (readDataElement n env this rd buffer offset False)
          (\<lambda>(dataElement, buffer).
             parse_metaLoop k n env
               (AList.update (tag_name (tag dataElement)) dataElement this)
               rd buffer (endOffset dataElement) metaEnd) \<noteq> OutOfFuel"
      by simp
    have "andThen (readDataElement (Suc n) env this rd buffer offset False)
          (\<lambda>(dataElement, buffer).
             parse_metaLoop (Suc k) (Suc n) env
               (AList.update (tag_name (tag dataElement)) dataElement this)
               rd buffer (endOffset dataElement) metaEnd) =
        andThen (readDataElement n env this rd buffer offset False)
          (\<lambda>(dataElement, buffer).
             parse_metaLoop k n env
               (AList.update (tag_name (tag dataElement)) dataElement this)
               rd buffer (endOffset dataElement) metaEnd)"
      by (rule andThen_fuel [OF n])
        (auto simp del: parse_metaLoop.simps readDataElement.simps
          simp add: readDataElement_fuel_Suc Suc.IH)
    with True show ?thesis by (simp only: u if_True)
  next
    case False
    then show ?thesis by (simp only: u if_False)
  qed
qed

lemma parse_dataLoop_fuel:
  "parse_dataLoop k n env this rd buffer offset implicit \<noteq> OutOfFuel \<Longrightarrow>
   parse_dataLoop (Suc k) (Suc n) env this rd buffer offset implicit =
     parse_dataLoop k n env this rd buffer offset implicit"
proof (induction k arbitrary: this buffer offset)
  case 0
  then show ?case by simp
next
  case (Suc k)
  note u = parse_dataLoop.simps(2) [of "Suc k"] parse_dataLoop.simps(2) [of k n]
  show ?case
  proof (cases "offset < length buffer")
    case True
    with Suc.prems have n: "andThen (readDataElement n env this rd buffer offset implicit)
          (\<lambda>(dataElement, buffer).
             parse_dataLoop k n env
               (AList.update (tag_name (tag dataElement)) dataElement this)
               rd buffer (endOffset dataElement) implicit) \<noteq> OutOfFuel"
      by simp
    have "andThen (readDataElement (Suc n) env this rd buffer offset implicit)
          (\<lambda>(dataElement, buffer).
             parse_dataLoop (Suc k) (Suc n) env
               (AList.update (tag_name (tag dataElement)) dataElement this)
               rd buffer (endOffset dataElement) implicit) =
        andThen (readDataElement n env this rd buffer offset implicit)
          (\<lambda>(dataElement, buffer).
             parse_dataLoop k n env
               (AList.update (tag_name (tag dataElement)) dataElement this)
               rd buffer (endOffset dataElement) implicit)"
      by (rule andThen_fuel [OF n])
        (auto simp del: parse_dataLoop.simps readDataElement.simps
          simp add: readDataElement_fuel_Suc Suc.IH)
    with True show ?thesis by (simp only: u if_True)
  next
    case False
    then show ?thesis by (simp only: u if_False)
  qed
qed

lemma parse_meta_fuel:
  assumes "parse_meta n env this buffer offset \<noteq> OutOfFuel"
  shows "parse_meta (Suc n) env this buffer offset = parse_meta n env this buffer offset"
  unfolding parse_meta_def Let_def
  by (rule andThen_fuel [OF assms [unfolded parse_meta_def Let_def]])
    (auto simp del: parse_metaLoop.simps readDataElement.simps
      simp add: readDataElement_fuel_Suc parse_metaLoop_fuel)

lemma parse_dataSet_fuel:
  assumes "parse_dataSet n env this pb buffer offset \<noteq> OutOfFuel"
  shows "parse_dataSet (Suc n) env this pb buffer offset =
           parse_dataSet n env this pb buffer offset"
  using assms unfolding parse_dataSet_def
  by (auto simp del: parse_dataLoop.simps simp add: andThen_OutOfFuel_iff
      intro!: andThen_fuel parse_dataLoop_fuel)

lemma parse_fuel_Suc:
  assumes "parse n env this buffer \<noteq> OutOfFuel"
  shows "parse (Suc n) env this buffer = parse n env this buffer"
  using assms unfolding parse_def
  by (auto simp add: andThen_OutOfFuel_iff
      intro!: andThen_fuel parse_meta_fuel parse_dataSet_fuel)

lemma parse_fuel:
  assumes "parse n env this buffer \<noteq> OutOfFuel" and "n \<le> m"
  shows "parse m env this buffer = parse n env this buffer"
  using assms(2,1)
proof (induction m rule: dec_induct)
  case base
  show ?case by (rule refl)
next
  case (step m)
  from step.IH [OF step.prems] step.prems
  have "parse m env this buffer \<noteq> OutOfFuel"
    by simp
  from parse_fuel_Suc [OF this] step.IH [OF step.prems]
  show ?case by simp
qed


lemma parse_metaLoop_length:
  "parse_metaLoop k n env this rd buffer offset metaEnd = Return (this', offset', buffer') \<Longrightarrow>
   length buffer' = length buffer"
proof (induction k arbitrary: this buffer offset)
  case 0
  then show ?case by simp
next
  case (Suc k)
  show ?case
  proof (cases "case metaEnd of None \<Rightarrow> False | Some m \<Rightarrow> int offset < m")
    case False
    with Suc.prems show ?thesis by simp
  next
    case True
    with Suc.prems obtain e b1 where
      r: "readDataElement n env this rd buffer offset False = Return (e, b1)"
      and rec: "parse_metaLoop k n env (AList.update (tag_name (tag e)) e this) rd b1
                  (endOffset e) metaEnd = Return (this', offset', buffer')"
      by (auto simp: andThen_Return_iff)
    from Suc.IH [OF rec] advancesD [OF readDataElement_advances r] show ?thesis by simp
  qed
qed

lemma parse_metaLoop_total:
  assumes "length buffer < n"
  shows "length buffer - offset < k \<Longrightarrow>
         parse_metaLoop k n env this rd buffer offset metaEnd \<noteq> OutOfFuel"
  using assms
proof (induction k arbitrary: this buffer offset)
  case 0
  then show ?case by simp
next
  case (Suc k)
  from Suc.prems(2) have "length buffer - offset < n" by arith
  then have "readDataElement n env this rd buffer offset False \<noteq> OutOfFuel"
    by (rule readDataElement_total)
  then have "andThen (readDataElement n env this rd buffer offset False)
          (\<lambda>(dataElement, buffer).
             parse_metaLoop k n env
               (AList.update (tag_name (tag dataElement)) dataElement this)
               rd buffer (endOffset dataElement) metaEnd) \<noteq> OutOfFuel"
  proof (rule andThen_total)
    fix x assume x: "readDataElement n env this rd buffer offset False = Return x"
    obtain e b1 where p: "x = (e, b1)" by (cases x)
    from advancesD [OF readDataElement_advances x [unfolded p]]
      readDataElement_in_buffer [OF x [unfolded p]] Suc.prems
    have "length b1 - endOffset e < k" and "length b1 < n" by arith+
    from Suc.IH [OF this]
    show "(case x of (dataElement, buffer) \<Rightarrow>
             parse_metaLoop k n env
               (AList.update (tag_name (tag dataElement)) dataElement this)
               rd buffer (endOffset dataElement) metaEnd) \<noteq> OutOfFuel"
      unfolding p by simp
  qed
  then show ?case by simp
qed

lemma parse_dataLoop_total:
  assumes "length buffer < n"
  shows "length buffer - offset < k \<Longrightarrow>
         parse_dataLoop k n env this rd buffer offset implicit \<noteq> OutOfFuel"
  using assms
proof (induction k arbitrary: this buffer offset)
  case 0
  then show ?case by simp
next
  case (Suc k)
  from Suc.prems(2) have "length buffer - offset < n" by arith
  then have "readDataElement n env this rd buffer offset implicit \<noteq> OutOfFuel"
    by (rule readDataElement_total)
  then have "andThen (readDataElement n env this rd buffer offset implicit)
          (\<lambda>(dataElement, buffer).
             parse_dataLoop k n env
               (AList.update (tag_name (tag dataElement)) dataElement this)
               rd buffer (endOffset dataElement) implicit) \<noteq> OutOfFuel"
  proof (rule andThen_total)
    fix x assume x: "readDataElement n env this rd buffer offset implicit = Return x"
    obtain e b1 where p: "x = (e, b1)" by (cases x)
    from advancesD [OF readDataElement_advances x [unfolded p]]
      readDataElement_in_buffer [OF x [unfolded p]] Suc.prems
    have "length b1 - endOffset e < k" and "length b1 < n" by arith+
    from Suc.IH [OF this]
    show "(case x of (dataElement, buffer) \<Rightarrow>
             parse_dataLoop k n env
               (AList.update (tag_name (tag dataElement)) dataElement this)
               rd buffer (endOffset dataElement) implicit) \<noteq> OutOfFuel"
      unfolding p by simp
  qed
  then show ?case by simp
qed

lemma parse_meta_Return:
  assumes "parse_meta n env this buffer offset = Return (this', offset', buffer')"
  shows "length buffer' = length buffer"
proof -
  from assms obtain e b1 metaEnd where
    r: "readDataElement n env this (DataReader env True) buffer offset False = Return (e, b1)"
    and l: "parse_metaLoop n n env (AList.update (tag_name (tag e)) e this)
              (DataReader env True) b1 (endOffset e) metaEnd
            = Return (this', offset', buffer')"
    unfolding parse_meta_def Let_def by (auto simp: andThen_Return_iff)
  from parse_metaLoop_length [OF l] advancesD [OF readDataElement_advances r]
  show ?thesis by simp
qed

lemma parse_meta_total:
  assumes "length buffer < n"
  shows "parse_meta n env this buffer offset \<noteq> OutOfFuel"
  unfolding parse_meta_def Let_def
proof (rule andThen_total)
  from assms have "length buffer - offset < n" by arith
  then show "readDataElement n env this (DataReader env True) buffer offset False \<noteq> OutOfFuel"
    by (rule readDataElement_total)
next
  fix x
  assume x: "readDataElement n env this (DataReader env True) buffer offset False = Return x"
  obtain e b1 where p: "x = (e, b1)" by (cases x)
  from advancesD [OF readDataElement_advances x [unfolded p]] assms
  have "length b1 < n" and "length b1 - endOffset e < n" by arith+
  from parse_metaLoop_total [OF this]
  show "(case x of (dataElement, buffer) \<Rightarrow>
      parse_metaLoop n n env (AList.update (tag_name (tag dataElement)) dataElement this)
        (DataReader env True) buffer (endOffset dataElement)
        (map_option ((+) (int (endOffset dataElement)))
           (parseInt_value0 env buffer (val dataElement)))) \<noteq> OutOfFuel"
    unfolding p by simp
qed

lemma parse_concat_total: "parse_concat env buffer items pb \<noteq> OutOfFuel"
  by (induction env buffer items pb rule: parse_concat.induct) simp_all

lemma parse_pixelBuffer_total: "parse_pixelBuffer env buffer this pb \<noteq> OutOfFuel"
  by (simp add: parse_pixelBuffer_def parse_concat_total split: option.splits dvalue.splits)

lemma parse_syntax_total: "parse_syntax this \<noteq> OutOfFuel"
  by (simp add: parse_syntax_def split: option.splits dvalue.splits list.splits component.splits)

lemma parse_transferSyntax_total: "parse_transferSyntax env syn rd \<noteq> OutOfFuel"
  by (simp add: parse_transferSyntax_def)

lemma parse_dataSet_total:
  assumes "length buffer < n"
  shows "parse_dataSet n env this pb buffer offset \<noteq> OutOfFuel"
proof -
  from assms have "length buffer - offset < n" by arith
  note l = parse_dataLoop_total [OF assms this]
  show ?thesis
    unfolding parse_dataSet_def
    by (auto simp: andThen_OutOfFuel_iff parse_syntax_total parse_transferSyntax_total l
        parse_pixelBuffer_total)
qed

text \<open>
  \<open>parse\<close> has a result or throws at every fuel above the length of the buffer, and its
  outcome is the same at each of them; so has \<open>readDataElement\<close> at every fuel above the
  number of bytes after the offset.
\<close>

lemma parse_total:
  assumes "length buffer < n"
  shows "parse n env this buffer \<noteq> OutOfFuel"
  unfolding parse_def
proof (rule andThen_total [OF readString_total])
  fix magicword
  have "andThen (parse_meta n env (dicomElements this) buffer (128 + 4))
      (\<lambda>(els, offset, buffer). parse_dataSet n env els (pixelBuffer this) buffer offset)
      \<noteq> OutOfFuel"
  proof (rule andThen_total [OF parse_meta_total [OF assms]])
    fix x assume x: "parse_meta n env (dicomElements this) buffer (128 + 4) = Return x"
    obtain els offset b1 where p: "x = (els, offset, b1)" by (cases x)
    from parse_meta_Return [OF x [unfolded p]] assms have "length b1 < n" by simp
    from parse_dataSet_total [OF this]
    show "(case x of (els, offset, buffer) \<Rightarrow>
        parse_dataSet n env els (pixelBuffer this) buffer offset) \<noteq> OutOfFuel"
      unfolding p by simp
  qed
  then show "(if magicword \<noteq> ''DICM'' then
         Throw (Error (js ''Not a valid DICOM file (no magic DICM word found)''))
       else
         andThen (parse_meta n env (dicomElements this) buffer (128 + 4))
           (\<lambda>(els, offset, buffer).
              parse_dataSet n env els (pixelBuffer this) buffer offset)) \<noteq> OutOfFuel"
    by simp
qed

lemma parse_outcome:
  assumes "length buffer < n"
  shows "parse n env this buffer = parse (Suc (length buffer)) env this buffer \<and>
         parse n env this buffer \<noteq> OutOfFuel"
proof -
  have t: "parse (Suc (length buffer)) env this buffer \<noteq> OutOfFuel"
    by (rule parse_total) simp
  from assms have "Suc (length buffer) \<le> n" by simp
  from parse_fuel [OF t this] t show ?thesis by simp
qed

lemma readDataElement_outcome:
  assumes "length buffer - offset < n"
  shows "readDataElement n env this rd buffer offset implicit =
           readDataElement (Suc (length buffer - offset)) env this rd buffer offset implicit \<and>
         readDataElement n env this rd buffer offset implicit \<noteq> OutOfFuel"
proof -
  have t: "readDataElement (Suc (length buffer - offset)) env this rd buffer offset implicit
      \<noteq> OutOfFuel"
    by (rule readDataElement_total) simp
  from assms have "Suc (length buffer - offset) \<le> n" by simp
  from readDataElement_fuel [OF t this] t show ?thesis by (simp del: readDataElement.simps)
qed

end
